theory Spec2Isabelle
  imports Main "HOL-Library.Char_ord" "HOL-Library.List_Lexorder"
begin

section \<open>Python values, strings and dictionaries\<close>

text \<open>
  Strings are \<open>char list\<close>s; a character is a code point below 256, so a string of the
  model is a Python string of Latin-1 characters. A cell of a scraped record is a Python value: the cell text
  (\<open>str\<close>), the scraping metadata (\<open>int\<close>), the link annotation of a cell (a list of
  \<open>{'text': .., 'href': ..}\<close> dictionaries), \<open>None\<close>, or a \<open>float\<close> (carried by its
  printed form, its arithmetic is never used).
\<close>

datatype pyval =
    PNone
  | PStr string
  | PInt int
  | PFloat string
  | PLinks "(string \<times> string option) list"

datatype py_error = AttributeError | ValueError | WebDriverException

text \<open>
  A dictionary with string keys is an association list in insertion order; a well-formed
  dictionary has distinct keys. \<open>dict_set\<close> is \<open>d[k] = v\<close>: an existing key keeps its
  position, a new key goes to the end.
\<close>

type_synonym pydict = "(string \<times> pyval) list"

fun dict_set :: "(string \<times> 'v) list \<Rightarrow> string \<Rightarrow> 'v \<Rightarrow> (string \<times> 'v) list" where
  "dict_set [] k v = [(k, v)]"
| "dict_set ((k', v') # d) k v = (if k' = k then (k, v) # d else (k', v') # dict_set d k v)"

definition dict_get :: "(string \<times> 'v) list \<Rightarrow> string \<Rightarrow> 'v option" where
  "dict_get d k = map_of d k"

definition dict_update :: "(string \<times> 'v) list \<Rightarrow> (string \<times> 'v) list \<Rightarrow> (string \<times> 'v) list" where
  "dict_update d e = foldl (\<lambda>acc (k, v). dict_set acc k v) d e"

definition keys :: "(string \<times> 'v) list \<Rightarrow> string list" where
  "keys d = map fst d"

definition wf_dict :: "(string \<times> 'v) list \<Rightarrow> bool" where
  "wf_dict d = distinct (map fst d)"

text \<open>
  \<open>str.strip()\<close> removes leading and trailing whitespace. The whitespace characters
  below 256 (those for which \<open>str.isspace\<close> holds) are tab, line feed, vertical tab, form
  feed, carriage return, the four separators 0x1C..0x1F, the space, the next-line
  character 0x85 and the no-break space 0xA0.
\<close>

definition is_space :: "char \<Rightarrow> bool" where
  "is_space c = (of_char c \<in> {9, 10, 11, 12, 13, 28, 29, 30, 31, 32, 133, 160 :: nat})"

definition strip :: "string \<Rightarrow> string" where
  "strip s = rev (dropWhile is_space (rev (dropWhile is_space s)))"

definition endswith :: "string \<Rightarrow> string \<Rightarrow> bool" where
  "endswith s suf = (length suf \<le> length s \<and> drop (length s - length suf) s = suf)"

definition startswith :: "string \<Rightarrow> string \<Rightarrow> bool" where
  "startswith s pre = (take (length pre) s = pre)"

text \<open>
  \<open>s.replace(old, new)\<close> replaces the non-overlapping occurrences of \<open>old\<close> from the
  left; with an empty \<open>old\<close> Python inserts \<open>new\<close> before every character and at the end.
\<close>

function py_replace :: "string \<Rightarrow> string \<Rightarrow> string \<Rightarrow> string" where
  "py_replace old new s =
     (if old = [] then new @ concat (map (\<lambda>c. c # new) s)
      else if s = [] then []
      else if take (length old) s = old then new @ py_replace old new (drop (length old) s)
      else hd s # py_replace old new (tl s))"
  by pat_completeness auto
termination
  by (relation "measure (\<lambda>(old, new, s). length s)") auto

text \<open>\<open>sep.join(parts)\<close>.\<close>

fun join :: "string \<Rightarrow> string list \<Rightarrow> string" where
  "join sep [] = []"
| "join sep [p] = p"
| "join sep (p # q # ps) = p @ sep @ join sep (q # ps)"

text \<open>Decimal rendering of integers, as \<open>str(n)\<close> and the f-string \<open>{n}\<close> print them.\<close>

definition digit_char :: "nat \<Rightarrow> char" where
  "digit_char d = char_of (48 + d)"

function string_of_nat :: "nat \<Rightarrow> string" where
  "string_of_nat n =
     (if n < 10 then [digit_char n] else string_of_nat (n div 10) @ [digit_char (n mod 10)])"
  by pat_completeness auto
termination
  by (relation "measure id") auto

definition string_of_int :: "int \<Rightarrow> string" where
  "string_of_int i = (if i < 0 then CHR ''-'' # string_of_nat (nat (- i)) else string_of_nat (nat i))"

text \<open>
  \<open>repr\<close> of a string: single quotes unless the string has a single quote and no
  double quote; the quote and the backslash are escaped, tab, line feed and carriage
  return are written \<open>\t\<close>, \<open>\n\<close>, \<open>\r\<close>, any other character that is not printable
  (below 0x20, from 0x7F to 0xA0, and the soft hyphen 0xAD) as \<open>\xNN\<close>.
\<close>

definition hex_digit :: "nat \<Rightarrow> char" where
  "hex_digit d = (if d < 10 then char_of (48 + d) else char_of (87 + d))"

definition repr_char :: "char \<Rightarrow> char \<Rightarrow> string" where
  "repr_char q c =
     (if c = q \<or> c = CHR 0x5C then [CHR 0x5C, c]
      else if c = CHR 0x09 then [CHR 0x5C, CHR ''t'']
      else if c = CHR 0x0A then [CHR 0x5C, CHR ''n'']
      else if c = CHR 0x0D then [CHR 0x5C, CHR ''r'']
      else if (of_char c :: nat) < 32 \<or> (127 \<le> (of_char c :: nat) \<and> (of_char c :: nat) \<le> 160)
              \<or> (of_char c :: nat) = 173
        then [CHR 0x5C, CHR ''x'', hex_digit (of_char c div 16), hex_digit (of_char c mod 16)]
      else [c])"

definition py_repr :: "string \<Rightarrow> string" where
  "py_repr s =
     (let q = (if CHR 0x27 \<in> set s \<and> CHR 0x22 \<notin> set s then CHR 0x22 else CHR 0x27)
      in q # concat (map (repr_char q) s) @ [q])"

definition repr_link :: "string \<times> string option \<Rightarrow> string" where
  "repr_link l =
     ''{'' @ py_repr ''text'' @ '': '' @ py_repr (fst l) @ '', '' @ py_repr ''href'' @ '': ''
       @ (case snd l of None \<Rightarrow> ''None'' | Some h \<Rightarrow> py_repr h) @ ''}''"

text \<open>\<open>str(v)\<close>, which is also what an f-string field prints.\<close>

fun py_str :: "pyval \<Rightarrow> string" where
  "py_str PNone = ''None''"
| "py_str (PStr s) = s"
| "py_str (PInt i) = string_of_int i"
| "py_str (PFloat f) = f"
| "py_str (PLinks ls) = ''['' @ join '', '' (map repr_link ls) @ '']''"

section \<open>The deduplicator (\<open>remove_duplicates\<close>)\<close>

text \<open>
  The product signature of a row: every field whose key does not end in \<open>_links\<close>, a
  string value stripped, any other value as it is. The source then takes
  \<open>str(sorted(product_signature.items()))\<close>. Sorting the items of a dictionary orders
  them by key (keys are distinct, so two items never compare by value). The printed form
  of a list of pairs determines the list, so membership of the printed form in
  \<open>seen_products\<close> is membership of the sorted item list itself. The counter
  \<open>duplicates_removed\<close> is only printed and is left out.
\<close>

fun normalize_value :: "pyval \<Rightarrow> pyval" where
  "normalize_value (PStr s) = PStr (strip s)"
| "normalize_value v = v"

definition product_signature :: "pydict \<Rightarrow> pydict" where
  "product_signature row =
     foldl (\<lambda>sg (key, v). if endswith key ''_links'' then sg
                            else dict_set sg key (normalize_value v)) [] row"

definition signature_str :: "pydict \<Rightarrow> pydict" where
  "signature_str row = sort_key fst (product_signature row)"

fun dedup_loop :: "pydict list \<Rightarrow> pydict set \<Rightarrow> pydict list \<Rightarrow> pydict list" where
  "dedup_loop [] seen_products unique_data = unique_data"
| "dedup_loop (row # rows) seen_products unique_data =
     (if signature_str row \<notin> seen_products
      then dedup_loop rows (insert (signature_str row) seen_products) (unique_data @ [row])
      else dedup_loop rows seen_products unique_data)"

definition remove_duplicates :: "pydict list \<Rightarrow> pydict list" where
  "remove_duplicates data = dedup_loop data {} []"

section \<open>The table extractor (\<open>extract_table_data\<close>, \<open>map_column_headers\<close>, \<open>is_grouping_row\<close>)\<close>

text \<open>
  The parsed page is the list of its tables, a table the list of its \<open>tr\<close> rows, a row
  the list of its \<open>th\<close>/\<open>td\<close> cells; a cell is its stripped text and the (text, href)
  pairs of the links inside it.
\<close>

record cell =
  cell_text :: string
  cell_links :: "(string \<times> string option) list"

type_synonym table = "cell list list"

text \<open>
  The first loop keeps the first table with the most header cells among the tables with
  at least two rows and at least ten header cells.
\<close>

fun select_by_columns :: "table list \<Rightarrow> nat \<Rightarrow> table option \<Rightarrow> table option" where
  "select_by_columns [] max_columns main_table = main_table"
| "select_by_columns (t # ts) max_columns main_table =
     (case t of
        first_row # _ # _ \<Rightarrow>
          (let columns = length first_row in
           if columns > max_columns \<and> columns \<ge> 10
           then select_by_columns ts columns (Some t)
           else select_by_columns ts max_columns main_table)
      | _ \<Rightarrow> select_by_columns ts max_columns main_table)"

text \<open>The fallback keeps the first table with the most rows.\<close>

fun select_by_rows :: "table list \<Rightarrow> nat \<Rightarrow> table option \<Rightarrow> table option" where
  "select_by_rows [] max_rows main_table = main_table"
| "select_by_rows (t # ts) max_rows main_table =
     (if length t > max_rows then select_by_rows ts (length t) (Some t)
      else select_by_rows ts max_rows main_table)"

definition select_main_table :: "table list \<Rightarrow> table option" where
  "select_main_table tables =
     (case select_by_columns tables 0 None of
        Some t \<Rightarrow> Some t
      | None \<Rightarrow> select_by_rows tables 0 None)"

definition column_name :: "nat \<Rightarrow> string" where
  "column_name n = ''Column_'' @ string_of_nat n"

fun extract_headers :: "cell list \<Rightarrow> string list \<Rightarrow> string list" where
  "extract_headers [] headers = headers"
| "extract_headers (c # cs) headers =
     extract_headers cs
       (headers @ [if cell_text c \<noteq> [] then cell_text c else column_name (length headers + 1)])"

fun fill_row :: "string list \<Rightarrow> cell list \<Rightarrow> nat \<Rightarrow> pydict \<Rightarrow> pydict" where
  "fill_row headers [] col_idx row_data = row_data"
| "fill_row headers (c # cs) col_idx row_data =
     (let header = (if col_idx < length headers then headers ! col_idx
                    else column_name (col_idx + 1));
          with_text = dict_set row_data header (PStr (cell_text c));
          with_links = (if cell_links c \<noteq> []
                        then dict_set with_text (header @ ''_links'') (PLinks (cell_links c))
                        else with_text)
      in fill_row headers cs (col_idx + 1) with_links)"

definition new_row :: "nat \<Rightarrow> nat \<Rightarrow> string \<Rightarrow> pydict" where
  "new_row page_num row_idx url =
     [(''page_number'', PInt (int page_num)), (''row_index'', PInt (int row_idx)),
      (''source_url'', PStr url)]"

fun extract_rows :: "nat \<Rightarrow> string \<Rightarrow> string list \<Rightarrow> cell list list \<Rightarrow> nat \<Rightarrow> pydict list" where
  "extract_rows page_num url headers [] row_idx = []"
| "extract_rows page_num url headers (cells # rows) row_idx =
     (if length cells = 0 then extract_rows page_num url headers rows (row_idx + 1)
      else fill_row headers cells 0 (new_row page_num row_idx url)
             # extract_rows page_num url headers rows (row_idx + 1))"

text \<open>\<open>row.get(field, '').strip()\<close>: a value that is not a string has no \<open>strip\<close>.\<close>

definition get_stripped :: "pydict \<Rightarrow> string \<Rightarrow> py_error + string" where
  "get_stripped row field =
     (case dict_get row field of
        None \<Rightarrow> Inr (strip [])
      | Some (PStr s) \<Rightarrow> Inr (strip s)
      | Some _ \<Rightarrow> Inl AttributeError)"

definition required_fields :: "string list" where
  "required_fields = [''Column_2'', ''Column_3'', ''Column_4'', ''Column_10'']"

fun count_filled :: "pydict \<Rightarrow> string list \<Rightarrow> nat \<Rightarrow> py_error + nat" where
  "count_filled row [] filled_fields = Inr filled_fields"
| "count_filled row (field # more_fields) filled_fields =
     (case get_stripped row field of
        Inl e \<Rightarrow> Inl e
      | Inr v \<Rightarrow>
          count_filled row more_fields
            (if v \<noteq> [] \<and> v \<notin> set [[], ''-'', ''N/A'', ''NR''] then filled_fields + 1
             else filled_fields))"

definition is_grouping_row :: "pydict \<Rightarrow> py_error + bool" where
  "is_grouping_row row =
     (case count_filled row required_fields 0 of
        Inl e \<Rightarrow> Inl e
      | Inr filled_fields \<Rightarrow>
          if filled_fields < 2 then Inr True
          else (case get_stripped row ''Column_1'' of
                  Inl e \<Rightarrow> Inl e
                | Inr group_by \<Rightarrow>
                    if group_by \<noteq> [] \<and> filled_fields = 0 then Inr True else Inr False))"

definition column_mapping :: "(string \<times> string) list" where
  "column_mapping =
     [(''Column_2'', ''Company_Product_Name''),
      (''Column_3'', ''AM_Best''),
      (''Column_4'', ''Max_Issue_Age''),
      (''Column_5'', ''Min_Premium''),
      (''Column_6'', ''SC_Years''),
      (''Column_7'', ''Free_Withdrawal_Yr1_Yr2''),
      (''Column_8'', ''Last_Change''),
      (''Column_9'', ''Premium_Bonus''),
      (''Column_10'', ''Current_Rate''),
      (''Column_11'', ''Base_Rate''),
      (''Column_12'', ''Years''),
      (''Column_13'', ''GTD_Yield_Rate''),
      (''Column_14'', ''Commission'')]"

fun clean_value :: "pyval \<Rightarrow> pyval" where
  "clean_value (PStr s) =
     PStr (py_replace [CHR ''/'', CHR 0x0A] ''/ ''
            (py_replace [CHR 0x0A, CHR ''/''] '' /''
              (py_replace [CHR 0x0A, CHR ''/'', CHR 0x0A] '' / '' s)))"
| "clean_value v = v"

definition map_row :: "pydict \<Rightarrow> pydict" where
  "map_row row =
     foldl (\<lambda>mapped_row (old_key, new_key).
              case dict_get row old_key of
                None \<Rightarrow> mapped_row
              | Some v \<Rightarrow> dict_set mapped_row new_key (clean_value v))
           [] column_mapping"

fun map_rows :: "pydict list \<Rightarrow> pydict list \<Rightarrow> py_error + pydict list" where
  "map_rows [] mapped_data = Inr mapped_data"
| "map_rows (row # rows) mapped_data =
     (case is_grouping_row row of
        Inl e \<Rightarrow> Inl e
      | Inr grouping \<Rightarrow>
          if grouping then map_rows rows mapped_data
          else map_rows rows (mapped_data @ [map_row row]))"

definition map_column_headers :: "pydict list \<Rightarrow> py_error + pydict list" where
  "map_column_headers data = map_rows data []"

text \<open>
  \<open>extract_table_data\<close> catches every exception and returns the empty list then; an
  empty selected table would fail at \<open>rows[0]\<close>.
\<close>

definition extract_table_data :: "nat \<Rightarrow> string \<Rightarrow> table list \<Rightarrow> pydict list" where
  "extract_table_data page_num url tables =
     (case select_main_table tables of
        None \<Rightarrow> []
      | Some rows \<Rightarrow>
          (case rows of
             [] \<Rightarrow> []
           | header_row # data_rows \<Rightarrow>
               (case map_column_headers
                       (extract_rows page_num url (extract_headers header_row []) data_rows 0) of
                  Inl e \<Rightarrow> []
                | Inr mapped_data \<Rightarrow> mapped_data)))"

text \<open>
  \<open>scrape_page\<close>: the browser either fails on the request (any exception of the driver)
  or delivers a page, at some current URL, with its tables. \<open>scrape_page\<close> catches every
  exception itself and returns the empty list then.
\<close>

datatype fetch = FetchFailed | Fetched string "table list"

definition scrape_page :: "nat \<Rightarrow> fetch \<Rightarrow> pydict list" where
  "scrape_page page_num f =
     (case f of
        FetchFailed \<Rightarrow> []
      | Fetched url tables \<Rightarrow> extract_table_data page_num url tables)"

section \<open>The pagination loop (\<open>scrape_all_pages\<close>)\<close>

definition product_sample :: "pydict \<Rightarrow> string" where
  "product_sample product =
     py_str (case dict_get product ''Company_Product_Name'' of None \<Rightarrow> PStr [] | Some v \<Rightarrow> v)
       @ '':'' @
     py_str (case dict_get product ''Current_Rate'' of None \<Rightarrow> PStr [] | Some v \<Rightarrow> v)"

definition create_page_signature :: "pydict list \<Rightarrow> string" where
  "create_page_signature page_data =
     (if page_data = [] then ''empty''
      else join ''|''
             (map product_sample (take 3 page_data)
              @ (if length page_data > 6
                 then map product_sample (drop (max 3 (length page_data - 3)) page_data)
                 else [])))"

record loop_state =
  all_data :: "pydict list"
  page_num :: nat
  consecutive_empty_pages :: nat
  last_page_data_signature :: "string option"

definition initial_state :: loop_state where
  "initial_state =
     \<lparr>all_data = [], page_num = 1, consecutive_empty_pages = 0,
      last_page_data_signature = None\<rparr>"

datatype 'a iteration = Break 'a | Continue 'a

text \<open>\<open>if max_pages and page_num >= max_pages\<close>: neither \<open>None\<close> nor \<open>0\<close> is a cap.\<close>

definition cap_reached :: "int option \<Rightarrow> nat \<Rightarrow> bool" where
  "cap_reached max_pages n = (case max_pages of None \<Rightarrow> False | Some m \<Rightarrow> m \<noteq> 0 \<and> m \<le> int n)"

definition same_as_last :: "string option \<Rightarrow> string \<Rightarrow> bool" where
  "same_as_last last_signature page_signature =
     (case last_signature of None \<Rightarrow> False | Some l \<Rightarrow> l \<noteq> [] \<and> page_signature = l)"

definition next_page :: "int option \<Rightarrow> loop_state \<Rightarrow> loop_state iteration" where
  "next_page max_pages s =
     (if cap_reached max_pages (page_num s) then Break s
      else Continue (s\<lparr>page_num := page_num s + 1\<rparr>))"

text \<open>
  One iteration of \<open>while True\<close>. The call \<open>self.scrape_page(page_num)\<close> is the parameter
  \<open>call\<close>: it returns the records of the page, or an exception reaches the handler of the
  loop (\<open>Inl\<close>). The pause between two requests and the log messages have no effect on
  the state and are left out.
\<close>

definition loop_body ::
  "(nat \<Rightarrow> py_error + pydict list) \<Rightarrow> int option \<Rightarrow> loop_state \<Rightarrow> loop_state iteration" where
  "loop_body call max_pages s =
     (case call (page_num s) of
        Inl e \<Rightarrow>
          (let s' = s\<lparr>consecutive_empty_pages := consecutive_empty_pages s + 1\<rparr> in
           if consecutive_empty_pages s' \<ge> 3 then Break s'
           else Continue (s'\<lparr>page_num := page_num s' + 1\<rparr>))
      | Inr page_data \<Rightarrow>
          if page_data \<noteq> [] then
            (let page_signature = create_page_signature page_data in
             if same_as_last (last_page_data_signature s) page_signature then Break s
             else next_page max_pages
                    (s\<lparr>all_data := all_data s @ page_data,
                       consecutive_empty_pages := 0,
                       last_page_data_signature := Some page_signature\<rparr>))
          else
            (let s' = s\<lparr>consecutive_empty_pages := consecutive_empty_pages s + 1\<rparr> in
             if consecutive_empty_pages s' \<ge> 3 then Break s'
             else next_page max_pages s'))"

partial_function (option) scrape_loop ::
  "(nat \<Rightarrow> py_error + pydict list) \<Rightarrow> int option \<Rightarrow> loop_state \<Rightarrow> loop_state option" where
  "scrape_loop call max_pages s =
     (case loop_body call max_pages s of
        Break s' \<Rightarrow> Some s'
      | Continue s' \<Rightarrow> scrape_loop call max_pages s')"

definition scrape_all_pages ::
  "(nat \<Rightarrow> py_error + pydict list) \<Rightarrow> int option \<Rightarrow> pydict list option" where
  "scrape_all_pages call max_pages =
     map_option (\<lambda>s. remove_duplicates (all_data s)) (scrape_loop call max_pages initial_state)"

text \<open>The loop over a site: page \<open>n\<close> is requested and extracted by \<open>scrape_page\<close>.\<close>

definition site_call :: "(nat \<Rightarrow> fetch) \<Rightarrow> nat \<Rightarrow> py_error + pydict list" where
  "site_call site n = Inr (scrape_page n (site n))"

section \<open>The CSV sink (\<open>save_to_csv\<close>)\<close>

definition preferred_order :: "string list" where
  "preferred_order =
     [''Carrier_Product_Name'', ''AM_Best'', ''Max_Issue_Age'', ''Min_Premium'', ''SC_Years'',
      ''Free_Withdrawal_Yr1_Yr2'', ''Last_Change'', ''Premium_Bonus'', ''Current_Rate'',
      ''Base_Rate'', ''Years_Rate_GTD'', ''GTD_Yield_Surrender'', ''Commission'']"

text \<open>
  The loop over \<open>preferred_order\<close>: a preferred column that occurs in the data is
  appended to \<open>columns\<close> and removed from the set \<open>all_columns\<close>.
\<close>

fun order_columns :: "string list \<Rightarrow> string list \<Rightarrow> string set \<Rightarrow> string list \<times> string set" where
  "order_columns [] columns all_columns = (columns, all_columns)"
| "order_columns (col # cols) columns all_columns =
     (if col \<in> all_columns then order_columns cols (columns @ [col]) (all_columns - {col})
      else order_columns cols columns all_columns)"

definition csv_columns :: "pydict list \<Rightarrow> string list" where
  "csv_columns data =
     (let all_columns = set (concat (map keys data));
          (columns, remaining) = order_columns preferred_order [] all_columns
      in columns @ sorted_list_of_set remaining)"

text \<open>
  \<open>save_to_csv\<close> writes nothing for an empty list; otherwise the header row it writes is
  \<open>csv_columns data\<close>. The model returns the header row.
\<close>

definition save_to_csv :: "pydict list \<Rightarrow> string list option" where
  "save_to_csv data = (if data = [] then None else Some (csv_columns data))"

section \<open>The database sinks (\<open>mssql_utils\<close>, \<open>db_utils\<close>)\<close>

definition DEFAULT_COLUMN_TYPE :: string where
  "DEFAULT_COLUMN_TYPE = ''NVARCHAR(MAX)''"

definition NUMERIC_DECIMAL_TYPE :: string where
  "NUMERIC_DECIMAL_TYPE = ''DECIMAL(20,6)''"

text \<open>\<open>row.get(col)\<close>, and the test \<open>v in (None, "", "-", "N/A")\<close>.\<close>

definition row_get :: "pydict \<Rightarrow> string \<Rightarrow> pyval" where
  "row_get row col = (case dict_get row col of None \<Rightarrow> PNone | Some v \<Rightarrow> v)"

definition is_placeholder :: "pyval \<Rightarrow> bool" where
  "is_placeholder v = (v \<in> set [PNone, PStr [], PStr ''-'', PStr ''N/A''])"

text \<open>
  Full matches of \<open>^\d+$\<close> and \<open>^\d+\.\d+$\<close>; below 256 the decimal digits that \<open>\d\<close>
  matches are \<open>0\<close> to \<open>9\<close>.
\<close>

definition is_digit :: "char \<Rightarrow> bool" where
  "is_digit c = (CHR ''0'' \<le> c \<and> c \<le> CHR ''9'')"

definition int_regex :: "string \<Rightarrow> bool" where
  "int_regex s = (s \<noteq> [] \<and> list_all is_digit s)"

definition dec_regex :: "string \<Rightarrow> bool" where
  "dec_regex s =
     (takeWhile is_digit s \<noteq> [] \<and>
      (case dropWhile is_digit s of
         [] \<Rightarrow> False
       | c # frac \<Rightarrow> c = CHR ''.'' \<and> frac \<noteq> [] \<and> list_all is_digit frac))"

text \<open>
  The candidate type of one value, \<open>None\<close> when the value is not numeric (the source then
  sets \<open>inferred = None\<close> and leaves the loop over the rows).
\<close>

fun candidate :: "pyval \<Rightarrow> string option" where
  "candidate (PInt i) = Some ''INT''"
| "candidate (PFloat f) = Some NUMERIC_DECIMAL_TYPE"
| "candidate v =
     (let s = strip (py_replace '','' [] (py_str v)) in
      if int_regex s then Some ''INT''
      else if dec_regex s then Some NUMERIC_DECIMAL_TYPE
      else None)"

fun infer_column :: "pydict list \<Rightarrow> string \<Rightarrow> string option \<Rightarrow> string option" where
  "infer_column [] col inferred = inferred"
| "infer_column (row # rows) col inferred =
     (let v = row_get row col in
      if is_placeholder v then infer_column rows col inferred
      else (case candidate v of
              None \<Rightarrow> None
            | Some c \<Rightarrow>
                infer_column rows col
                  (if inferred = None then Some c
                   else if inferred = Some ''INT'' \<and> c = NUMERIC_DECIMAL_TYPE
                   then Some NUMERIC_DECIMAL_TYPE
                   else inferred)))"

definition infer_column_types :: "pydict list \<Rightarrow> string list \<Rightarrow> (string \<times> string) list" where
  "infer_column_types data columns =
     foldl (\<lambda>types col.
              case infer_column data col None of
                None \<Rightarrow> types
              | Some t \<Rightarrow> if t \<noteq> [] then dict_set types col t else types)
           [] columns"

definition default_numeric :: "(string \<times> string) list" where
  "default_numeric =
     [(''Min_Premium'', ''INT''),
      (''Max_Issue_Age'', ''INT''),
      (''Current_Rate'', NUMERIC_DECIMAL_TYPE),
      (''Base_Rate'', NUMERIC_DECIMAL_TYPE),
      (''GTD_Yield_Rate'', NUMERIC_DECIMAL_TYPE)]"

text \<open>The columns and the resolved column types of \<open>save_annuity_data_to_mssql\<close>.\<close>

definition derive_columns :: "pydict list \<Rightarrow> string list option \<Rightarrow> string list" where
  "derive_columns data explicit_columns =
     (case explicit_columns of
        None \<Rightarrow> sorted_list_of_set (set (concat (map keys data)))
      | Some cols \<Rightarrow> cols)"

definition resolve_types ::
  "pydict list \<Rightarrow> string list \<Rightarrow> (string \<times> string) list option \<Rightarrow> (string \<times> string) list" where
  "resolve_types data columns column_type_overrides =
     (let inferred = infer_column_types data columns;
          inferred = (case column_type_overrides of
                        None \<Rightarrow> inferred
                      | Some overrides \<Rightarrow>
                          if overrides \<noteq> [] then dict_update inferred overrides else inferred)
      in foldl (\<lambda>inferred (col, typ).
                  if col \<in> set columns \<and> dict_get inferred col = None
                  then dict_set inferred col typ else inferred)
               inferred default_numeric)"

definition column_type :: "(string \<times> string) list \<Rightarrow> string \<Rightarrow> string" where
  "column_type inferred c =
     (case dict_get inferred c of None \<Rightarrow> DEFAULT_COLUMN_TYPE | Some t \<Rightarrow> t)"

text \<open>
  The converters. Python's \<open>int\<close> and \<open>float\<close> are parameters: they parse a string or
  fail (\<open>None\<close>, the \<open>ValueError\<close> that the \<open>try\<close> catches); a float is carried by its
  printed form. \<open>convert\<close> is \<open>_convert\<close> of \<open>mssql_utils\<close>, \<open>convert_value_for_db\<close> is
  \<open>_convert_value_for_db\<close> of \<open>db_utils\<close>.
\<close>

definition convert ::
  "(string \<Rightarrow> int option) \<Rightarrow> (string \<Rightarrow> string option) \<Rightarrow> pyval \<Rightarrow> string \<Rightarrow> pyval" where
  "convert py_int py_float v col_type =
     (if is_placeholder v then PNone
      else if col_type = ''INT'' then
        (case py_int (py_replace '','' [] (py_str v)) of None \<Rightarrow> PNone | Some i \<Rightarrow> PInt i)
      else if startswith col_type ''DECIMAL'' then
        (case py_float (py_replace '','' [] (py_str v)) of None \<Rightarrow> PNone | Some f \<Rightarrow> PFloat f)
      else PNone)"

definition convert_value_for_db ::
  "(string \<Rightarrow> int option) \<Rightarrow> (string \<Rightarrow> string option) \<Rightarrow> pyval \<Rightarrow> string \<Rightarrow> pyval" where
  "convert_value_for_db py_int py_float v col_type =
     (if is_placeholder v then PNone
      else if col_type = ''INT'' then
        (case py_int (py_replace '','' [] (py_str v)) of None \<Rightarrow> v | Some i \<Rightarrow> PInt i)
      else if startswith col_type ''DECIMAL'' then
        (case py_float (py_replace '','' [] (py_str v)) of None \<Rightarrow> v | Some f \<Rightarrow> PFloat f)
      else v)"

text \<open>The rows that \<open>save_annuity_data_to_mssql\<close> hands to \<open>executemany\<close>.\<close>

definition insert_rows ::
  "(string \<Rightarrow> int option) \<Rightarrow> (string \<Rightarrow> string option) \<Rightarrow> pydict list \<Rightarrow> string list
     \<Rightarrow> (string \<times> string) list \<Rightarrow> pyval list list" where
  "insert_rows py_int py_float data columns inferred =
     map (\<lambda>row. map (\<lambda>c. convert py_int py_float (row_get row c) (column_type inferred c)) columns)
         data"

text \<open>
  \<open>save_annuity_data_to_mssql\<close> without the connection: nothing is saved for an empty
  list; otherwise the result is the column definitions of \<open>CREATE TABLE\<close> (name and
  type of each column) and the rows of the bulk insert.
\<close>

definition save_annuity_data_to_mssql ::
  "(string \<Rightarrow> int option) \<Rightarrow> (string \<Rightarrow> string option) \<Rightarrow> pydict list \<Rightarrow> string list option
     \<Rightarrow> (string \<times> string) list option \<Rightarrow> ((string \<times> string) list \<times> pyval list list) option" where
  "save_annuity_data_to_mssql py_int py_float data explicit_columns column_type_overrides =
     (if data = [] then None
      else (let columns = derive_columns data explicit_columns;
                inferred = resolve_types data columns column_type_overrides
            in Some (map (\<lambda>c. (c, column_type inferred c)) columns,
                     insert_rows py_int py_float data columns inferred)))"

section \<open>Specification-side definitions\<close>

subsection \<open>Deduplication\<close>

text \<open>
  Two records are the same product when every field whose key does not end in
  \<open>_links\<close> is present in both or in neither and has the same value after stripping.
\<close>

definition same_product :: "pydict \<Rightarrow> pydict \<Rightarrow> bool" where
  "same_product r1 r2 =
     list_all (\<lambda>k. endswith k ''_links'' \<or>
                    map_option normalize_value (dict_get r1 k)
                      = map_option normalize_value (dict_get r2 k))
              (keys r1 @ keys r2)"

text \<open>
  Keeping first occurrences: a record stays exactly when no record before it in the input
  is the same product; the records that stay keep their order.
\<close>

fun first_occurrences :: "pydict list \<Rightarrow> pydict list \<Rightarrow> pydict list" where
  "first_occurrences earlier [] = []"
| "first_occurrences earlier (x # xs) =
     (if list_ex (\<lambda>y. same_product y x) earlier then [] else [x])
       @ first_occurrences (earlier @ [x]) xs"

text \<open>Whitespace \<open>l\<close> and \<open>r\<close> put around every string value of a record.\<close>

fun pad_value :: "string \<Rightarrow> string \<Rightarrow> pyval \<Rightarrow> pyval" where
  "pad_value l r (PStr s) = PStr (l @ s @ r)"
| "pad_value l r v = v"

definition pad_values :: "string \<Rightarrow> string \<Rightarrow> pydict \<Rightarrow> pydict" where
  "pad_values l r row = map (\<lambda>(k, v). (k, pad_value l r v)) row"

text \<open>The deduplication loop without its accumulator.\<close>

fun fresh_rows :: "pydict list \<Rightarrow> pydict set \<Rightarrow> pydict list" where
  "fresh_rows [] seen = []"
| "fresh_rows (row # rows) seen =
     (if signature_str row \<in> seen then fresh_rows rows seen
      else row # fresh_rows rows (insert (signature_str row) seen))"

text \<open>The items of the product signature of a well-formed row, in the order of the row.\<close>

definition sig_items :: "pydict \<Rightarrow> pydict" where
  "sig_items row =
     map (\<lambda>(k, v). (k, normalize_value v)) (filter (\<lambda>(k, v). \<not> endswith k ''_links'') row)"

definition example_rows :: "pydict list" where
  "example_rows =
     [[(''Company_Product_Name'', PStr ''Acme 5''), (''Current_Rate'', PStr ''4.25''),
       (''Company_Product_Name_links'', PLinks [(''Acme 5'', Some ''/p/1'')])],
      [(''Current_Rate'', PStr (CHR 0xA0 # ''4.25 '')),
       (''Company_Product_Name'', PStr (''Acme 5'' @ [CHR 0x85]))],
      [(''Company_Product_Name'', PStr ''Beta 3''), (''Current_Rate'', PStr ''5.00'')]]"

subsection \<open>Runs of the pagination loop\<close>

text \<open>
  \<open>run_state call max_pages k\<close> is the state in which the loop starts its iteration
  number \<open>k + 1\<close>, when it gets there. \<open>recent_signature call n\<close> is the signature of the
  most recent page among the pages \<open>1..n\<close> that returned records, \<open>collected call n\<close> the
  records returned by the pages \<open>1..n\<close>.
\<close>

fun run_state :: "(nat \<Rightarrow> py_error + pydict list) \<Rightarrow> int option \<Rightarrow> nat \<Rightarrow> loop_state option" where
  "run_state call max_pages 0 = Some initial_state"
| "run_state call max_pages (Suc k) =
     (case run_state call max_pages k of
        None \<Rightarrow> None
      | Some s \<Rightarrow> (case loop_body call max_pages s of Break _ \<Rightarrow> None | Continue s' \<Rightarrow> Some s'))"

fun recent_signature :: "(nat \<Rightarrow> py_error + pydict list) \<Rightarrow> nat \<Rightarrow> string option" where
  "recent_signature call 0 = None"
| "recent_signature call (Suc n) =
     (case call (Suc n) of
        Inr d \<Rightarrow> if d \<noteq> [] then Some (create_page_signature d) else recent_signature call n
      | Inl e \<Rightarrow> recent_signature call n)"

fun collected :: "(nat \<Rightarrow> py_error + pydict list) \<Rightarrow> nat \<Rightarrow> pydict list" where
  "collected call 0 = []"
| "collected call (Suc n) =
     collected call n @ (case call (Suc n) of Inr d \<Rightarrow> d | Inl e \<Rightarrow> [])"

text \<open>The number of iterations left once every page from \<open>k\<close> on gives a reason to stop.\<close>

definition stop_measure :: "nat \<Rightarrow> loop_state \<Rightarrow> nat" where
  "stop_measure k s =
     (if k \<le> page_num s then 3 - consecutive_empty_pages s else (k - page_num s) + 3)"

text \<open>
  Example sites: one whose pages all have records and alternate between two contents, one
  that repeats its first page after an empty page, and one whose every request fails.
\<close>

definition endless_call :: "nat \<Rightarrow> py_error + pydict list" where
  "endless_call n = Inr [[(''Company_Product_Name'', PStr (if even n then ''A'' else ''B''))]]"

definition repeating_call :: "nat \<Rightarrow> py_error + pydict list" where
  "repeating_call n =
     (if n = 1 then Inr [[(''Company_Product_Name'', PStr ''Acme 5''), (''Current_Rate'', PStr ''4.25'')]]
      else if n = 2 then Inr []
      else if n = 3 then Inr [[(''Company_Product_Name'', PStr ''Acme 5''), (''Current_Rate'', PStr ''4.25''),
                               (''Years'', PStr ''5'')]]
      else Inl WebDriverException)"

definition dead_site :: "nat \<Rightarrow> fetch" where
  "dead_site n = FetchFailed"



subsection \<open>Extraction\<close>

text \<open>
  A key column is populated when it holds a string that, stripped, is neither empty nor
  one of the placeholders. \<open>text_or_absent\<close> says that a key, when present, holds a string.
\<close>

definition populated :: "pydict \<Rightarrow> string \<Rightarrow> bool" where
  "populated row k =
     (case dict_get row k of
        Some (PStr s) \<Rightarrow> strip s \<noteq> [] \<and> strip s \<notin> set [[], ''-'', ''N/A'', ''NR'']
      | _ \<Rightarrow> False)"

definition populated_count :: "pydict \<Rightarrow> nat" where
  "populated_count row = length (filter (populated row) required_fields)"

definition text_or_absent :: "pydict \<Rightarrow> string \<Rightarrow> bool" where
  "text_or_absent row k =
     (case dict_get row k of None \<Rightarrow> True | Some (PStr s) \<Rightarrow> True | Some _ \<Rightarrow> False)"

text \<open>
  The names of the header row, the name under which cell \<open>i\<close> of a data row is stored, and
  the keys of the raw record of a data row.
\<close>

definition header_names :: "cell list \<Rightarrow> string list" where
  "header_names header_row =
     map (\<lambda>(i, c). if cell_text c \<noteq> [] then cell_text c else column_name (i + 1))
         (enumerate 0 header_row)"

definition header_at :: "string list \<Rightarrow> nat \<Rightarrow> string" where
  "header_at headers i = (if i < length headers then headers ! i else column_name (i + 1))"

definition cell_keys :: "string list \<Rightarrow> nat \<Rightarrow> cell list \<Rightarrow> string list" where
  "cell_keys headers start cells =
     concat (map (\<lambda>(i, c). header_at headers i #
                    (if cell_links c \<noteq> [] then [header_at headers i @ ''_links''] else []))
                 (enumerate start cells))"

definition raw_keys :: "string list \<Rightarrow> cell list \<Rightarrow> string list" where
  "raw_keys headers cells = [''page_number'', ''row_index'', ''source_url''] @ cell_keys headers 0 cells"

text \<open>
  In a raw record every value is a string, except under the keys \<open>page_number\<close> and
  \<open>row_index\<close> and under keys that end in \<open>_links\<close>.
\<close>

definition raw_typed :: "pydict \<Rightarrow> bool" where
  "raw_typed d =
     list_all (\<lambda>(k, v). (case v of PStr s \<Rightarrow> True | _ \<Rightarrow> False) \<or> endswith k ''_links''
                  \<or> k \<in> set [''page_number'', ''row_index'']) d"

text \<open>
  Example tables: the table of the specification's example, and a table with blank header
  cells, a product row, a row without cells and a grouping row.
\<close>

definition text_cell :: "string \<Rightarrow> cell" where
  "text_cell s = \<lparr>cell_text = s, cell_links = []\<rparr>"

definition spec_example_table :: table where
  "spec_example_table =
     [[text_cell ''Company'', text_cell ''Rate''], [text_cell ''Acme'', text_cell ''4.25''], [text_cell ''Beta'', text_cell ''5.00'']]"

definition blank_header_table :: table where
  "blank_header_table =
     [[text_cell [], text_cell [], text_cell [], text_cell []],
      [text_cell [], \<lparr>cell_text = ''Acme 5'', cell_links = [(''Acme 5'', Some ''/p/1'')]\<rparr>, text_cell ''A-'', text_cell ''85''],
      [],
      [text_cell ''3 Year'', text_cell [], text_cell [], text_cell []]]"

definition grouping_example :: pydict where
  "grouping_example =
     [(''page_number'', PInt 1), (''row_index'', PInt 2), (''source_url'', PStr ''u''),
      (''Column_1'', PStr ''3 Year''), (''Column_2'', PStr [CHR 0xA0, CHR '' '']),
      (''Column_3'', PStr ''N/A''),
      (''Column_4'', PStr ''-''), (''Column_10'', PStr ''4.25'')]"

definition product_example :: pydict where
  "product_example =
     [(''page_number'', PInt 1), (''row_index'', PInt 3), (''source_url'', PStr ''u''),
      (''Column_2'', PStr ''Acme 5''), (''Column_3'', PStr ''NR''), (''Column_10'', PStr ''4.25'')]"

definition blank_name_example :: pydict where
  "blank_name_example = [(''Column_2'', PStr [CHR 0xA0]), (''Column_3'', PStr ''A-'')]"

subsection \<open>Sinks\<close>

text \<open>
  The values of a column that type inference looks at, and the two kinds of numeric
  value: digits only (an \<open>int\<close>, or a text of digits once commas are removed and the
  text is stripped) and decimal (a \<open>float\<close>, or a text of the form digits, point, digits).
\<close>

definition column_values :: "pydict list \<Rightarrow> string \<Rightarrow> pyval list" where
  "column_values data col = filter (\<lambda>v. \<not> is_placeholder v) (map (\<lambda>row. row_get row col) data)"

definition numeric_text :: "pyval \<Rightarrow> string" where
  "numeric_text v = strip (py_replace '','' [] (py_str v))"

fun digits_only :: "pyval \<Rightarrow> bool" where
  "digits_only (PInt i) = True"
| "digits_only (PFloat f) = False"
| "digits_only v = int_regex (numeric_text v)"

fun decimal_number :: "pyval \<Rightarrow> bool" where
  "decimal_number (PInt i) = False"
| "decimal_number (PFloat f) = True"
| "decimal_number v = dec_regex (numeric_text v)"

text \<open>
  Example data: the rows of \<open>test_mssql_insert.py\<close> (ASCII only), rows with a column of
  placeholders and a rate column with percent signs, and rows for the CSV header.
\<close>

definition db_example :: "pydict list" where
  "db_example =
     [[(''Company_Product_Name'', PStr ''Dummy Co MyGA 1''), (''AM_Best'', PStr ''A-''),
       (''Max_Issue_Age'', PStr ''85''), (''Min_Premium'', PStr ''10,000''),
       (''Current_Rate'', PStr ''4.25''), (''Years'', PStr ''1 yr'')],
      [(''Company_Product_Name'', PStr ''Dummy Co MyGA 2''), (''AM_Best'', PStr ''B+''),
       (''Max_Issue_Age'', PStr ''90''), (''Min_Premium'', PStr ''5000''),
       (''Current_Rate'', PStr ''5.00''), (''Years'', PStr ''2 yrs'')]]"

definition db_odd_example :: "pydict list" where
  "db_odd_example =
     [[(''Notes'', PStr ''-''), (''Current_Rate'', PStr ''4.25%''),
       (''Min_Premium'', PStr (CHR 0xA0 # ''5,000 ''))],
      [(''Notes'', PStr []), (''Current_Rate'', PStr ''5.00%'')]]"

definition csv_example :: "pydict list" where
  "csv_example =
     [[(''Company_Product_Name'', PStr ''Acme 5''), (''Current_Rate'', PStr ''4.25''), (''AM_Best'', PStr ''A-'')],
      [(''Years'', PStr ''5''), (''Commission'', PStr ''2.00''), (''AM_Best'', PStr ''B+'')]]"

text \<open>A parser that rejects every string, for the parameters \<open>py_int\<close> and \<open>py_float\<close>.\<close>

definition never_parses :: "string \<Rightarrow> 'a option" where
  "never_parses s = None"

section \<open>Properties of the deduplicator\<close>

lemma dedup_loop_fresh_rows:
  "dedup_loop rows seen acc = acc @ fresh_rows rows seen"
  by (induction rows arbitrary: seen acc) auto

lemma remove_duplicates_fresh_rows: "remove_duplicates data = fresh_rows data {}"
  by (simp add: remove_duplicates_def dedup_loop_fresh_rows)

lemma fresh_rows_avoid_seen:
  "row \<in> set (fresh_rows rows seen) \<Longrightarrow> signature_str row \<notin> seen"
  by (induction rows arbitrary: seen) (auto split: if_splits)

lemma fresh_rows_distinct_signatures:
  "distinct (map signature_str (fresh_rows rows seen))"
proof (induction rows arbitrary: seen)
  case Nil
  show ?case by simp
next
  case (Cons row rows)
  show ?case
  proof (cases "signature_str row \<in> seen")
    case True
    with Cons show ?thesis by simp
  next
    case False
    have "signature_str row \<notin> signature_str ` set (fresh_rows rows (insert (signature_str row) seen))"
      using fresh_rows_avoid_seen by fastforce
    with False Cons show ?thesis by simp
  qed
qed

lemma fresh_rows_fixed:
  "distinct (map signature_str rows) \<Longrightarrow> signature_str ` set rows \<inter> seen = {}
     \<Longrightarrow> fresh_rows rows seen = rows"
  by (induction rows arbitrary: seen) auto

text \<open>
  C5. \<open>remove_duplicates\<close> is idempotent: deduplicating an already deduplicated list
  returns that list unchanged.
\<close>

theorem remove_duplicates_idempotent:
  "remove_duplicates (remove_duplicates xs) = remove_duplicates xs"
  unfolding remove_duplicates_fresh_rows
  by (rule fresh_rows_fixed) (simp_all add: fresh_rows_distinct_signatures)

lemma dict_set_fresh: "k \<notin> fst ` set d \<Longrightarrow> dict_set d k v = d @ [(k, v)]"
  by (induction d) auto

lemma sig_items_keys: "fst ` set (sig_items row) \<subseteq> fst ` set row"
  by (force simp: sig_items_def)

lemma product_signature_fold:
  "distinct (map fst acc @ map fst row) \<Longrightarrow>
   foldl (\<lambda>sg (key, v). if endswith key ''_links'' then sg
                            else dict_set sg key (normalize_value v)) acc row
   = acc @ sig_items row"
proof (induction row arbitrary: acc)
  case Nil
  then show ?case by (simp add: sig_items_def)
next
  case (Cons kv row)
  obtain k v where kv: "kv = (k, v)" by (cases kv)
  show ?case
  proof (cases "endswith k ''_links''")
    case True
    with Cons kv show ?thesis by (simp add: sig_items_def)
  next
    case False
    have fresh: "k \<notin> fst ` set acc" using Cons.prems kv by auto
    have d: "distinct (map fst (acc @ [(k, normalize_value v)]) @ map fst row)"
      using Cons.prems kv by auto
    show ?thesis using False kv Cons.IH[OF d] dict_set_fresh[OF fresh]
      by (simp add: sig_items_def)
  qed
qed

lemma product_signature_wf: "wf_dict row \<Longrightarrow> product_signature row = sig_items row"
  using product_signature_fold[of "[]" row] by (simp add: product_signature_def wf_dict_def)

lemma sig_items_distinct: "wf_dict row \<Longrightarrow> distinct (map fst (sig_items row))"
  unfolding wf_dict_def sig_items_def
  by (induction row) (auto simp: image_iff)

lemma map_of_sig_items:
  "map_of (sig_items row) k =
     (if endswith k ''_links'' then None else map_option normalize_value (map_of row k))"
  by (induction row) (auto simp: sig_items_def)

lemma sort_key_fst_eq_iff:
  assumes "distinct (map fst xs)" "distinct (map fst ys)"
  shows "sort_key fst xs = sort_key fst ys \<longleftrightarrow> map_of xs = map_of ys"
proof
  assume "sort_key fst xs = sort_key fst ys"
  then have "set (sort_key fst xs) = set (sort_key fst ys)" by simp
  then have "set xs = set ys" by simp
  with assms show "map_of xs = map_of ys" by (simp add: map_of_inject_set)
next
  assume "map_of xs = map_of ys"
  with assms have s: "set xs = set ys" by (simp add: map_of_inject_set)
  have dx: "distinct (map fst (sort_key fst xs))" and dy: "distinct (map fst (sort_key fst ys))"
    using assms by (simp_all add: distinct_map)
  have "inj_on fst (set xs)" using assms(1) by (simp add: distinct_map)
  then have inj: "inj_on fst (set (sort_key fst xs) \<union> set (sort_key fst ys))" using s by simp
  show "sort_key fst xs = sort_key fst ys"
    by (rule map_sorted_distinct_set_unique[OF inj _ dx _ dy]) (simp_all add: s)
qed

lemma signature_str_eq_iff:
  assumes "wf_dict r1" "wf_dict r2"
  shows "signature_str r1 = signature_str r2 \<longleftrightarrow> same_product r1 r2"
proof -
  have "signature_str r1 = signature_str r2 \<longleftrightarrow> map_of (sig_items r1) = map_of (sig_items r2)"
    using assms by (simp add: signature_str_def product_signature_wf sort_key_fst_eq_iff sig_items_distinct)
  also have "\<dots> \<longleftrightarrow> (\<forall>k. \<not> endswith k ''_links'' \<longrightarrow>
       map_option normalize_value (map_of r1 k) = map_option normalize_value (map_of r2 k))"
    by (auto simp: fun_eq_iff map_of_sig_items)
  also have "\<dots> \<longleftrightarrow> same_product r1 r2"
  proof
    assume "\<forall>k. \<not> endswith k ''_links'' \<longrightarrow>
       map_option normalize_value (map_of r1 k) = map_option normalize_value (map_of r2 k)"
    then show "same_product r1 r2"
      by (auto simp: same_product_def list_all_iff dict_get_def)
  next
    assume sp: "same_product r1 r2"
    show "\<forall>k. \<not> endswith k ''_links'' \<longrightarrow>
       map_option normalize_value (map_of r1 k) = map_option normalize_value (map_of r2 k)"
    proof (intro allI impI)
      fix k assume nl: "\<not> endswith k ''_links''"
      show "map_option normalize_value (map_of r1 k) = map_option normalize_value (map_of r2 k)"
      proof (cases "k \<in> set (keys r1 @ keys r2)")
        case True
        with sp nl show ?thesis by (auto simp: same_product_def list_all_iff dict_get_def)
      next
        case False
        then have "map_of r1 k = None" "map_of r2 k = None"
          by (auto simp: keys_def map_of_eq_None_iff)
        then show ?thesis by simp
      qed
    qed
  qed
  finally show ?thesis .
qed

lemma fresh_rows_first_occurrences:
  "\<forall>r \<in> set earlier \<union> set xs. wf_dict r \<Longrightarrow>
   fresh_rows xs (signature_str ` set earlier) = first_occurrences earlier xs"
proof (induction xs arbitrary: earlier)
  case Nil
  show ?case by simp
next
  case (Cons x xs)
  have mem: "signature_str x \<in> signature_str ` set earlier \<longleftrightarrow> list_ex (\<lambda>y. same_product y x) earlier"
  proof -
    have "signature_str x \<in> signature_str ` set earlier
            \<longleftrightarrow> (\<exists>y \<in> set earlier. signature_str y = signature_str x)"
      by (metis (no_types) image_iff)
    also have "\<dots> \<longleftrightarrow> (\<exists>y \<in> set earlier. same_product y x)"
      using Cons.prems by (simp add: signature_str_eq_iff)
    finally show ?thesis by (simp add: list_ex_iff)
  qed
  have wf': "\<forall>r \<in> set (earlier @ [x]) \<union> set xs. wf_dict r" using Cons.prems by auto
  have ih: "fresh_rows xs (signature_str ` set (earlier @ [x])) = first_occurrences (earlier @ [x]) xs"
    by (rule Cons.IH[OF wf'])
  show ?case
  proof (cases "signature_str x \<in> signature_str ` set earlier")
    case True
    then have "signature_str ` set (earlier @ [x]) = signature_str ` set earlier" by auto
    with True ih mem show ?thesis by simp
  next
    case False
    have "signature_str ` set (earlier @ [x]) = insert (signature_str x) (signature_str ` set earlier)" by auto
    with False ih mem show ?thesis by simp
  qed
qed

lemma dropWhile_all: "\<forall>c \<in> set l. P c \<Longrightarrow> dropWhile P (l @ s) = dropWhile P s"
  by (induction l) auto

lemma strip_padded:
  assumes "\<forall>c \<in> set l. is_space c" "\<forall>c \<in> set r. is_space c"
  shows "strip (l @ s @ r) = strip s"
proof -
  have r': "\<forall>c \<in> set (rev r). is_space c" using assms(2) by simp
  have a: "dropWhile is_space (l @ s @ r) = dropWhile is_space (s @ r)"
    using assms(1) by (rule dropWhile_all)
  show ?thesis
  proof (cases "\<forall>c \<in> set s. is_space c")
    case True
    then have "\<forall>c \<in> set (s @ r). is_space c" using assms(2) by auto
    then have e1: "dropWhile is_space (s @ r) = []" by (metis dropWhile_eq_Nil_conv)
    have e2: "dropWhile is_space s = []" using True by (metis dropWhile_eq_Nil_conv)
    show ?thesis unfolding strip_def a e1 e2 by simp
  next
    case False
    then obtain c where c: "c \<in> set s" "\<not> is_space c" by blast
    have "dropWhile is_space (s @ r) = dropWhile is_space s @ r"
      using c by (simp add: dropWhile_append1)
    then have "rev (dropWhile is_space (s @ r)) = rev r @ rev (dropWhile is_space s)" by simp
    then have "dropWhile is_space (rev (dropWhile is_space (s @ r)))
                 = dropWhile is_space (rev (dropWhile is_space s))"
      using dropWhile_all[OF r'] by simp
    then show ?thesis by (simp add: strip_def a)
  qed
qed

lemma normalize_pad_value:
  "\<forall>c \<in> set l. is_space c \<Longrightarrow> \<forall>c \<in> set r. is_space c
     \<Longrightarrow> normalize_value (pad_value l r v) = normalize_value v"
  by (cases v) (simp_all add: strip_padded)

lemma map_of_pad_values: "map_of (pad_values l r row) k = map_option (pad_value l r) (map_of row k)"
  by (induction row) (auto simp: pad_values_def)

lemma keys_pad_values: "map fst (pad_values l r row) = map fst row"
  by (induction row) (auto simp: pad_values_def)

lemma same_product_padded:
  assumes "\<forall>c \<in> set l. is_space c" "\<forall>c \<in> set r. is_space c"
  shows "same_product row (pad_values l r row)"
proof -
  have "map_option normalize_value (map_of (pad_values l r row) k)
          = map_option normalize_value (map_of row k)" for k
    by (cases "map_of row k") (simp_all add: map_of_pad_values normalize_pad_value[OF assms])
  then show ?thesis by (simp add: same_product_def list_all_iff dict_get_def)
qed

lemma first_occurrences_snoc:
  "first_occurrences earlier (xs @ [y]) =
     first_occurrences earlier xs @ (if list_ex (\<lambda>z. same_product z y) (earlier @ xs) then [] else [y])"
  by (induction xs arbitrary: earlier) simp_all

text \<open>
  C6. On well-formed records \<open>remove_duplicates\<close> keeps exactly the first occurrence of
  each class of same products, in input order, where two records are the same product iff
  their fields other than \<open>_links\<close> fields agree after stripping; so a later copy of a
  record of the input whose string values are padded with whitespace is dropped.
\<close>

theorem remove_duplicates_first_occurrences:
  assumes "\<forall>row \<in> set xs. wf_dict row"
  shows "remove_duplicates xs = first_occurrences [] xs
     \<and> (\<forall>x \<in> set xs. \<forall>l r. list_all is_space l \<longrightarrow> list_all is_space r \<longrightarrow>
           remove_duplicates (xs @ [pad_values l r x]) = remove_duplicates xs)"
proof (intro conjI ballI allI impI)
  show main: "remove_duplicates xs = first_occurrences [] xs"
    using fresh_rows_first_occurrences[of "[]" xs] assms by (simp add: remove_duplicates_fresh_rows)
  fix x l r
  assume x: "x \<in> set xs" and l: "list_all is_space l" and r: "list_all is_space r"
  have sp: "same_product x (pad_values l r x)"
    using l r by (intro same_product_padded) (simp_all add: list_all_iff)
  have "wf_dict (pad_values l r x)" using assms x by (simp add: wf_dict_def keys_pad_values)
  then have wf: "\<forall>row \<in> set [] \<union> set (xs @ [pad_values l r x]). wf_dict row" using assms by auto
  have "remove_duplicates (xs @ [pad_values l r x]) = first_occurrences [] (xs @ [pad_values l r x])"
    using fresh_rows_first_occurrences[OF wf] by (simp add: remove_duplicates_fresh_rows)
  also have "\<dots> = first_occurrences [] xs"
    using x sp by (auto simp: first_occurrences_snoc list_ex_iff)
  finally show "remove_duplicates (xs @ [pad_values l r x]) = remove_duplicates xs"
    using main by simp
qed

theorem remove_duplicates_first_occurrences_witness:
  "list_all wf_dict example_rows
   \<and> remove_duplicates example_rows = [example_rows ! 0, example_rows ! 2]
   \<and> first_occurrences [] example_rows = [example_rows ! 0, example_rows ! 2]
   \<and> remove_duplicates (example_rows @ [pad_values [CHR 0xA0] [CHR 0x85, CHR '' ''] (example_rows ! 2)])
       = remove_duplicates example_rows"
proof -
  have h: "\<forall>row \<in> set example_rows. wf_dict row" by code_simp
  have sp: "list_all is_space [CHR 0xA0]" "list_all is_space [CHR 0x85, CHR '' '']" by code_simp+
  have m: "example_rows ! 2 \<in> set example_rows" by (simp add: example_rows_def)
  have e: "first_occurrences [] example_rows = [example_rows ! 0, example_rows ! 2]"
    by code_simp
  have h': "list_all wf_dict example_rows" using h by (simp add: list_all_iff)
  from remove_duplicates_first_occurrences[OF h] m sp e h' show ?thesis by metis
qed

section \<open>Properties of the pagination loop\<close>

lemmas loop_eval =
  scrape_all_pages_def scrape_loop.simps loop_body_def initial_state_def
  same_as_last_def next_page_def cap_reached_def create_page_signature_def product_sample_def
  dict_get_def Let_def remove_duplicates_def signature_str_def product_signature_def
  endswith_def strip_def is_space_def

lemma loop_body_counter: "loop_body call mp s = Continue s' \<Longrightarrow> consecutive_empty_pages s' < 3"
  by (auto simp: loop_body_def next_page_def Let_def split: sum.splits if_splits)

lemma loop_body_page: "loop_body call mp s = Continue s' \<Longrightarrow> page_num s' = page_num s + 1"
  by (auto simp: loop_body_def next_page_def Let_def split: sum.splits if_splits)

lemma loop_body_cap:
  "loop_body call mp s = Continue s' \<Longrightarrow> call (page_num s) = Inr d \<Longrightarrow> \<not> cap_reached mp (page_num s)"
  by (auto simp: loop_body_def next_page_def Let_def split: sum.splits if_splits)

lemma loop_body_reset:
  "loop_body call mp s = Continue s' \<Longrightarrow> call (page_num s) = Inr d \<Longrightarrow> d \<noteq> []
     \<Longrightarrow> consecutive_empty_pages s' = 0"
  by (auto simp: loop_body_def next_page_def Let_def split: sum.splits if_splits)

lemma loop_body_empty_counter:
  "loop_body call mp s = Continue s' \<Longrightarrow> call (page_num s) = Inr [] \<or> isl (call (page_num s))
     \<Longrightarrow> consecutive_empty_pages s' = consecutive_empty_pages s + 1"
  by (auto simp: loop_body_def next_page_def Let_def isl_def split: sum.splits if_splits)

lemma scrape_loop_measure:
  assumes "\<And>s s'. loop_body call mp s = Continue s' \<Longrightarrow> \<mu> s' < (\<mu> s :: nat)"
  shows "\<exists>r. scrape_loop call mp s = Some r"
proof (induction "\<mu> s" arbitrary: s rule: less_induct)
  case less
  show ?case
  proof (cases "loop_body call mp s")
    case (Break r)
    then show ?thesis by (subst scrape_loop.simps) simp
  next
    case (Continue s')
    with assms have "\<mu> s' < \<mu> s" by simp
    then obtain r where "scrape_loop call mp s' = Some r" using less by blast
    with Continue show ?thesis by (subst scrape_loop.simps) simp
  qed
qed

lemma stop_measure_decreases:
  assumes c: "loop_body call mp s = Continue s'"
    and stop: "\<And>n. k \<le> n \<Longrightarrow> cap_reached mp n \<or> call n = Inr [] \<or> isl (call n)"
  shows "stop_measure k s' < stop_measure k s"
proof -
  have p: "page_num s' = page_num s + 1" and c3: "consecutive_empty_pages s' < 3"
    using c loop_body_page loop_body_counter by blast+
  show ?thesis
  proof (cases "k \<le> page_num s")
    case False
    then show ?thesis using p c3 by (auto simp: stop_measure_def)
  next
    case True
    have "call (page_num s) = Inr [] \<or> isl (call (page_num s))"
    proof (cases "call (page_num s)")
      case (Inl e) then show ?thesis by simp
    next
      case (Inr d)
      with c have "\<not> cap_reached mp (page_num s)" using loop_body_cap by blast
      with stop[OF True] show ?thesis by blast
    qed
    then have "consecutive_empty_pages s' = consecutive_empty_pages s + 1"
      using c loop_body_empty_counter by blast
    with True p c3 show ?thesis by (auto simp: stop_measure_def)
  qed
qed

lemma cap_reached_mono: "m \<noteq> 0 \<Longrightarrow> nat m \<le> n \<Longrightarrow> cap_reached (Some m) n"
  by (auto simp: cap_reached_def)

lemma cap_reached_later: "cap_reached mp k \<Longrightarrow> k \<le> n \<Longrightarrow> cap_reached mp n"
  by (auto simp: cap_reached_def split: option.splits)

lemma scrape_loop_rule:
  assumes "scrape_loop call mp s = Some r" and "I s"
    and step: "\<And>s s'. I s \<Longrightarrow> loop_body call mp s = Continue s' \<Longrightarrow> I s'"
    and stop: "\<And>s r. I s \<Longrightarrow> loop_body call mp s = Break r \<Longrightarrow> Q r"
  shows "Q r"
proof -
  have "call' = call \<and> mp' = mp \<and> I s \<longrightarrow> Q r" if "scrape_loop call' mp' s = Some r" for call' mp'
    using that
  proof (induction call' mp' s r rule: scrape_loop.raw_induct[rotated 1, consumes 1])
    case (1 loop call' mp' s r)
    show ?case
    proof (intro impI)
      assume a: "call' = call \<and> mp' = mp \<and> I s"
      show "Q r"
      proof (cases "loop_body call mp s")
        case (Break r')
        with 1(2) a have "r' = r" by simp
        with Break a stop show ?thesis by blast
      next
        case (Continue s')
        with 1(2) a have "loop call mp s' = Some r" by simp
        moreover have "I s'" using a Continue step by blast
        ultimately show ?thesis using 1(1)[of call mp s' r] a by blast
      qed
    qed
  qed
  with assms(1,2) show ?thesis by blast
qed

lemma loop_body_break_page: "loop_body call mp s = Break r \<Longrightarrow> page_num r = page_num s"
  by (auto simp: loop_body_def next_page_def Let_def split: sum.splits if_splits)

lemma loop_body_break_counter:
  "loop_body call mp s = Break r \<Longrightarrow> consecutive_empty_pages s \<le> 2
     \<Longrightarrow> consecutive_empty_pages r \<le> 3"
  by (auto simp: loop_body_def next_page_def Let_def split: sum.splits if_splits)

lemma scrape_loop_bound:
  assumes stop: "\<And>n. k \<le> n \<Longrightarrow> cap_reached mp n \<or> call n = Inr [] \<or> isl (call n)"
    and r: "scrape_loop call mp initial_state = Some r"
  shows "page_num r \<le> max k 1 + 2"
proof (rule scrape_loop_rule[OF r, where I = "\<lambda>s. page_num s \<le> max k 1 + consecutive_empty_pages s
                                                  \<and> consecutive_empty_pages s \<le> 2"])
  show "page_num initial_state \<le> max k 1 + consecutive_empty_pages initial_state
          \<and> consecutive_empty_pages initial_state \<le> 2"
    by (simp add: initial_state_def)
next
  fix s s'
  assume i: "page_num s \<le> max k 1 + consecutive_empty_pages s \<and> consecutive_empty_pages s \<le> 2"
    and c: "loop_body call mp s = Continue s'"
  have p: "page_num s' = page_num s + 1" and c3: "consecutive_empty_pages s' < 3"
    using c loop_body_page loop_body_counter by blast+
  show "page_num s' \<le> max k 1 + consecutive_empty_pages s' \<and> consecutive_empty_pages s' \<le> 2"
  proof (cases "k \<le> page_num s")
    case False
    with p c3 show ?thesis by auto
  next
    case True
    have "call (page_num s) = Inr [] \<or> isl (call (page_num s))"
    proof (cases "call (page_num s)")
      case (Inl e) then show ?thesis by simp
    next
      case (Inr d)
      with c have "\<not> cap_reached mp (page_num s)" using loop_body_cap by blast
      with stop[OF True] show ?thesis by blast
    qed
    then have "consecutive_empty_pages s' = consecutive_empty_pages s + 1"
      using c loop_body_empty_counter by blast
    with i p c3 show ?thesis by auto
  qed
next
  fix s r
  assume i: "page_num s \<le> max k 1 + consecutive_empty_pages s \<and> consecutive_empty_pages s \<le> 2"
    and b: "loop_body call mp s = Break r"
  from loop_body_break_page[OF b] i show "page_num r \<le> max k 1 + 2" by simp
qed

lemma scrape_loop_bound_returning:
  assumes cap: "cap_reached mp k" and ret: "\<And>n. \<not> isl (call n)"
    and r: "scrape_loop call mp initial_state = Some r"
  shows "page_num r \<le> max k 1"
proof (rule scrape_loop_rule[OF r, where I = "\<lambda>s. page_num s \<le> max k 1"])
  show "page_num initial_state \<le> max k 1" by (simp add: initial_state_def)
next
  fix s s'
  assume i: "page_num s \<le> max k 1" and c: "loop_body call mp s = Continue s'"
  obtain d where d: "call (page_num s) = Inr d" using ret[of "page_num s"] by (cases "call (page_num s)") auto
  with c have "\<not> cap_reached mp (page_num s)" using loop_body_cap by blast
  with cap have "page_num s < k" using cap_reached_later by (meson not_le)
  with loop_body_page[OF c] show "page_num s' \<le> max k 1" by simp
next
  fix s r
  assume "page_num s \<le> max k 1" and "loop_body call mp s = Break r"
  with loop_body_break_page show "page_num r \<le> max k 1" by metis
qed

lemma endless_never:
  assumes "scrape_loop call mp s = Some r"
  shows "\<not> (call = endless_call \<and> (\<forall>n. \<not> cap_reached mp n)
            \<and> last_page_data_signature s \<noteq> Some (create_page_signature (projr (endless_call (page_num s)))))"
  using assms
proof (induction call mp s r rule: scrape_loop.raw_induct[rotated 1, consumes 1])
  case (1 loop call mp s r)
  show ?case
  proof
    assume a: "call = endless_call \<and> (\<forall>n. \<not> cap_reached mp n)
            \<and> last_page_data_signature s \<noteq> Some (create_page_signature (projr (endless_call (page_num s))))"
    let ?d = "projr (endless_call (page_num s))"
    let ?s' = "s\<lparr>all_data := all_data s @ ?d, consecutive_empty_pages := 0,
                 last_page_data_signature := Some (create_page_signature ?d), page_num := page_num s + 1\<rparr>"
    have b: "loop_body call mp s = Continue ?s'"
      using a by (auto simp: loop_body_def endless_call_def same_as_last_def next_page_def Let_def split: option.splits)
    have "create_page_signature (projr (endless_call (page_num s))) \<noteq> create_page_signature (projr (endless_call (page_num s + 1)))"
      by (simp add: endless_call_def create_page_signature_def product_sample_def dict_get_def)
    then have "last_page_data_signature ?s' \<noteq> Some (create_page_signature (projr (endless_call (page_num ?s'))))"
      by simp
    moreover have "loop call mp ?s' = Some r" using 1(2) b by simp
    ultimately show False using 1(1)[of call mp ?s' r] a by blast
  qed
qed

text \<open>
  C1, as stated, fails: without a cap (\<open>max_pages\<close> is \<open>None\<close> or \<open>0\<close>) the loop never
  returns on a site whose every page has records and differs from the page before.
\<close>

theorem scrape_all_pages_runs_forever:
  "scrape_all_pages endless_call None = None \<and> scrape_all_pages endless_call (Some 0) = None"
proof -
  have "scrape_loop endless_call mp initial_state = None" if "\<forall>n. \<not> cap_reached mp n" for mp
  proof (cases "scrape_loop endless_call mp initial_state")
    case (Some r)
    from endless_never[OF this] that show ?thesis by (simp add: initial_state_def)
  qed simp
  then show ?thesis by (simp add: scrape_all_pages_def cap_reached_def)
qed

text \<open>
  C1, amended. If from some page \<open>k\<close> on every page is past the cap, or is returned
  empty, or makes the call raise, the loop terminates, and the last page it requests is at
  most \<open>max k 1 + 2\<close>; it is at most \<open>max k 1\<close> when \<open>k\<close> is past the cap and no call
  raises. Whenever the loop goes on to the next page, the counter of empty pages is below
  3, and for a returned page the cap has not been reached and, if the page has records, the
  counter is 0.
\<close>

theorem scrape_all_pages_terminates:
  assumes stop: "\<forall>n\<ge>k. cap_reached max_pages n \<or> call n = Inr [] \<or> isl (call n)"
  shows "(\<exists>r. scrape_loop call max_pages initial_state = Some r
             \<and> scrape_all_pages call max_pages = Some (remove_duplicates (all_data r))
             \<and> page_num r \<le> max k 1 + 2
             \<and> (cap_reached max_pages k \<and> (\<forall>n. \<not> isl (call n)) \<longrightarrow> page_num r \<le> max k 1))
       \<and> (\<forall>s s'. loop_body call max_pages s = Continue s' \<longrightarrow>
             consecutive_empty_pages s' < 3
             \<and> (\<forall>d. call (page_num s) = Inr d \<longrightarrow>
                   \<not> cap_reached max_pages (page_num s)
                   \<and> (d \<noteq> [] \<longrightarrow> consecutive_empty_pages s' = 0)))"
proof (intro conjI allI impI)
  have "\<exists>r. scrape_loop call max_pages initial_state = Some r"
  proof (rule scrape_loop_measure[where \<mu> = "stop_measure k"])
    fix s s' assume "loop_body call max_pages s = Continue s'"
    then show "stop_measure k s' < stop_measure k s"
      by (rule stop_measure_decreases) (use stop in blast)
  qed
  then obtain r where r: "scrape_loop call max_pages initial_state = Some r" ..
  have b: "page_num r \<le> max k 1 + 2"
    using scrape_loop_bound[OF _ r] stop by blast
  have "page_num r \<le> max k 1" if "cap_reached max_pages k \<and> (\<forall>n. \<not> isl (call n))"
    using scrape_loop_bound_returning[OF _ _ r] that by blast
  with r b show "\<exists>r. scrape_loop call max_pages initial_state = Some r
             \<and> scrape_all_pages call max_pages = Some (remove_duplicates (all_data r))
             \<and> page_num r \<le> max k 1 + 2
             \<and> (cap_reached max_pages k \<and> (\<forall>n. \<not> isl (call n)) \<longrightarrow> page_num r \<le> max k 1)"
    by (auto simp: scrape_all_pages_def)
next
  fix s s' assume "loop_body call max_pages s = Continue s'"
  then show "consecutive_empty_pages s' < 3" by (rule loop_body_counter)
next
  fix s s' d assume "loop_body call max_pages s = Continue s'" "call (page_num s) = Inr d"
  then show "\<not> cap_reached max_pages (page_num s)" by (rule loop_body_cap)
next
  fix s s' d assume "loop_body call max_pages s = Continue s'" "call (page_num s) = Inr d" "d \<noteq> []"
  then show "consecutive_empty_pages s' = 0" by (rule loop_body_reset)
qed

theorem scrape_all_pages_terminates_witness:
  "cap_reached (Some 2) 2
   \<and> (\<exists>r. scrape_loop endless_call (Some 2) initial_state = Some r \<and> page_num r \<le> 2)
   \<and> scrape_all_pages endless_call (Some 2) =
        Some [[(''Company_Product_Name'', PStr ''B'')], [(''Company_Product_Name'', PStr ''A'')]]"
proof -
  have h: "\<forall>n\<ge>2. cap_reached (Some 2) n \<or> endless_call n = Inr [] \<or> isl (endless_call n)"
    by (simp add: cap_reached_def)
  have c: "cap_reached (Some 2) 2" by (simp add: cap_reached_def)
  have nr: "\<forall>n. \<not> isl (endless_call n)" by (simp add: endless_call_def)
  have e: "scrape_all_pages endless_call (Some 2) =
        Some [[(''Company_Product_Name'', PStr ''B'')], [(''Company_Product_Name'', PStr ''A'')]]"
    by (simp add: loop_eval endless_call_def)
  from scrape_all_pages_terminates[OF h] c nr have "\<exists>r. scrape_loop endless_call (Some 2) initial_state = Some r \<and> page_num r \<le> 2"
    by auto
  with c e show ?thesis by blast
qed

lemma product_sample_nonempty: "product_sample p \<noteq> []"
  by (simp add: product_sample_def)

lemma join_nonempty: "p \<noteq> [] \<Longrightarrow> join sep (p # ps) \<noteq> []"
  by (cases ps) auto

lemma create_page_signature_nonempty: "create_page_signature d \<noteq> []"
proof (cases d)
  case Nil
  then show ?thesis by (simp add: create_page_signature_def)
next
  case (Cons x xs)
  then show ?thesis
    by (simp add: create_page_signature_def join_nonempty product_sample_nonempty)
qed

lemma run_state_page: "run_state call mp k = Some s \<Longrightarrow> page_num s = k + 1"
proof (induction k arbitrary: s)
  case 0
  then show ?case by (auto simp: initial_state_def)
next
  case (Suc k)
  then show ?case by (auto split: option.splits iteration.splits dest: loop_body_page)
qed

lemma loop_body_data:
  "loop_body call mp s = Continue s' \<Longrightarrow>
     all_data s' = all_data s @ (case call (page_num s) of Inr d \<Rightarrow> d | Inl e \<Rightarrow> [])
   \<and> last_page_data_signature s' =
       (case call (page_num s) of
          Inr d \<Rightarrow> if d \<noteq> [] then Some (create_page_signature d) else last_page_data_signature s
        | Inl e \<Rightarrow> last_page_data_signature s)"
  by (auto simp: loop_body_def next_page_def Let_def split: sum.splits if_splits)

lemma run_state_data:
  "run_state call mp k = Some s \<Longrightarrow>
     all_data s = collected call k \<and> last_page_data_signature s = recent_signature call k"
proof (induction k arbitrary: s)
  case 0
  then show ?case by (auto simp: initial_state_def)
next
  case (Suc k)
  then obtain s0 where s0: "run_state call mp k = Some s0" "loop_body call mp s0 = Continue s"
    by (auto split: option.splits iteration.splits)
  from Suc.IH[OF s0(1)] run_state_page[OF s0(1)] loop_body_data[OF s0(2)]
  show ?case by (auto split: sum.splits)
qed

lemma run_state_loop:
  "run_state call mp k = Some s \<Longrightarrow> scrape_loop call mp initial_state = scrape_loop call mp s"
proof (induction k arbitrary: s)
  case 0
  then show ?case by simp
next
  case (Suc k)
  then obtain s0 where s0: "run_state call mp k = Some s0" "loop_body call mp s0 = Continue s"
    by (auto split: option.splits iteration.splits)
  have "scrape_loop call mp s0 = scrape_loop call mp s"
    using s0(2) by (subst scrape_loop.simps) simp
  with Suc.IH[OF s0(1)] show ?case by simp
qed

text \<open>
  C2. When the loop reaches a page that returns records whose signature is the signature of
  the most recent page with records, it stops in that iteration with its accumulated data
  unchanged: the result is the deduplicated data of the pages before, without the records
  of the repeated page, and no two records of the result have the same product signature.
\<close>

theorem repeated_page_stops:
  assumes reach: "run_state call max_pages k = Some s"
    and page: "call (Suc k) = Inr page_data" "page_data \<noteq> []"
    and same: "recent_signature call k = Some (create_page_signature page_data)"
  shows "loop_body call max_pages s = Break s
       \<and> scrape_loop call max_pages initial_state = Some s
       \<and> all_data s = collected call k
       \<and> scrape_all_pages call max_pages = Some (remove_duplicates (collected call k))
       \<and> distinct (map signature_str (remove_duplicates (collected call k)))"
proof -
  have p: "page_num s = Suc k" using run_state_page[OF reach] by simp
  have d: "all_data s = collected call k"
    and l: "last_page_data_signature s = Some (create_page_signature page_data)"
    using run_state_data[OF reach] same by simp_all
  have b: "loop_body call max_pages s = Break s"
    using p page l by (simp add: loop_body_def same_as_last_def create_page_signature_nonempty)
  then have "scrape_loop call max_pages s = Some s" by (subst scrape_loop.simps) simp
  then have r: "scrape_loop call max_pages initial_state = Some s"
    using run_state_loop[OF reach] by simp
  show ?thesis
    using b r d by (simp add: scrape_all_pages_def remove_duplicates_fresh_rows fresh_rows_distinct_signatures)
qed

theorem repeated_page_stops_witness:
  "run_state repeating_call None 2 =
      Some \<lparr>all_data = [[(''Company_Product_Name'', PStr ''Acme 5''), (''Current_Rate'', PStr ''4.25'')]],
            page_num = 3, consecutive_empty_pages = 1, last_page_data_signature = Some ''Acme 5:4.25''\<rparr>
   \<and> repeating_call (Suc 2) = Inr [[(''Company_Product_Name'', PStr ''Acme 5''), (''Current_Rate'', PStr ''4.25''),
                               (''Years'', PStr ''5'')]]
   \<and> recent_signature repeating_call 2 = Some ''Acme 5:4.25''
   \<and> scrape_all_pages repeating_call None =
       Some [[(''Company_Product_Name'', PStr ''Acme 5''), (''Current_Rate'', PStr ''4.25'')]]"
proof -
  let ?s = "\<lparr>all_data = [[(''Company_Product_Name'', PStr ''Acme 5''), (''Current_Rate'', PStr ''4.25'')]],
            page_num = 3, consecutive_empty_pages = 1, last_page_data_signature = Some ''Acme 5:4.25''\<rparr>"
  let ?d = "[[(''Company_Product_Name'', PStr ''Acme 5''), (''Current_Rate'', PStr ''4.25''),
                               (''Years'', PStr ''5'')]]"
  have a: "run_state repeating_call None 2 = Some ?s" by code_simp
  have b: "repeating_call (Suc 2) = Inr ?d" by code_simp
  have n: "?d \<noteq> []" by simp
  have c: "recent_signature repeating_call 2 = Some (create_page_signature ?d)" by code_simp
  have c': "recent_signature repeating_call 2 = Some ''Acme 5:4.25''" by code_simp
  have e: "remove_duplicates (collected repeating_call 2) = [[(''Company_Product_Name'', PStr ''Acme 5''), (''Current_Rate'', PStr ''4.25'')]]"
    by code_simp
  from repeated_page_stops[OF a b n c] e a b c' show ?thesis by simp
qed

lemma loop_body_no_records:
  assumes "call (page_num s) = Inr []"
  shows "loop_body call mp s =
     (if 3 \<le> consecutive_empty_pages s + 1
      then Break (s\<lparr>consecutive_empty_pages := consecutive_empty_pages s + 1\<rparr>)
      else if cap_reached mp (page_num s)
      then Break (s\<lparr>consecutive_empty_pages := consecutive_empty_pages s + 1\<rparr>)
      else Continue (s\<lparr>consecutive_empty_pages := consecutive_empty_pages s + 1,
                       page_num := page_num s + 1\<rparr>))"
  using assms by (simp add: loop_body_def next_page_def Let_def)

text \<open>
  The handler of the loop itself, for an exception that leaves \<open>scrape_page\<close>: the
  counter goes up and the loop goes on, without the test of the cap.
\<close>

lemma loop_handler:
  assumes "call (page_num s) = Inl e"
  shows "loop_body call mp s =
     (if 3 \<le> consecutive_empty_pages s + 1
      then Break (s\<lparr>consecutive_empty_pages := consecutive_empty_pages s + 1\<rparr>)
      else Continue (s\<lparr>consecutive_empty_pages := consecutive_empty_pages s + 1,
                       page_num := page_num s + 1\<rparr>))"
  using assms by (simp add: loop_body_def Let_def)

lemma empty_page_step:
  assumes "call (page_num s) = Inr []"
  shows "(\<exists>r. loop_body call mp s = Break r \<and> all_data r = all_data s \<and> page_num r = page_num s)
       \<or> (consecutive_empty_pages s + 1 < 3
          \<and> (\<exists>s'. loop_body call mp s = Continue s' \<and> all_data s' = all_data s
                 \<and> page_num s' = page_num s + 1
                 \<and> consecutive_empty_pages s' = consecutive_empty_pages s + 1))"
  unfolding loop_body_no_records[of call s mp, OF assms] by auto

lemma empty_pages_stop:
  assumes "\<forall>i \<le> n. call (page_num s + i) = Inr []" "3 \<le> consecutive_empty_pages s + n + 1"
  shows "\<exists>r. scrape_loop call mp s = Some r \<and> all_data r = all_data s \<and> page_num r \<le> page_num s + n"
  using assms
proof (induction n arbitrary: s)
  case 0
  then have "call (page_num s) = Inr []" by simp
  from empty_page_step[of call s mp, OF this] 0(2)
  obtain r where "loop_body call mp s = Break r" "all_data r = all_data s" "page_num r = page_num s"
    by auto
  then show ?case by (subst scrape_loop.simps) simp
next
  case (Suc n)
  from Suc.prems(1) have e: "call (page_num s) = Inr []" by (metis add.right_neutral le0)
  from empty_page_step[of call s mp, OF e] show ?case
  proof (elim disjE exE conjE)
    fix r assume "loop_body call mp s = Break r" "all_data r = all_data s" "page_num r = page_num s"
    then show ?thesis by (subst scrape_loop.simps) simp
  next
    fix s' assume s': "loop_body call mp s = Continue s'" "all_data s' = all_data s"
      "page_num s' = page_num s + 1" "consecutive_empty_pages s' = consecutive_empty_pages s + 1"
    have "\<forall>i \<le> n. call (page_num s' + i) = Inr []"
    proof (intro allI impI)
      fix i assume "i \<le> n"
      then have "call (page_num s + Suc i) = Inr []" using Suc.prems(1) by (meson Suc_le_mono)
      then show "call (page_num s' + i) = Inr []" using s'(3) by simp
    qed
    moreover have "3 \<le> consecutive_empty_pages s' + n + 1" using Suc.prems(2) s'(4) by simp
    ultimately obtain r where "scrape_loop call mp s' = Some r" "all_data r = all_data s'"
      "page_num r \<le> page_num s' + n"
      using Suc.IH[of s'] by blast
    with s' show ?thesis by (subst scrape_loop.simps) simp
  qed
qed

lemma three_empty_pages_stop:
  assumes "call (page_num s) = Inr []" "call (page_num s + 1) = Inr []" "call (page_num s + 2) = Inr []"
  shows "\<exists>r. scrape_loop call mp s = Some r \<and> all_data r = all_data s \<and> page_num r \<le> page_num s + 2"
proof (rule empty_pages_stop)
  show "\<forall>i \<le> 2. call (page_num s + i) = Inr []"
  proof (intro allI impI)
    fix i :: nat assume "i \<le> 2"
    then have "i = 0 \<or> i = 1 \<or> i = 2" by arith
    with assms show "call (page_num s + i) = Inr []" by auto
  qed
  show "3 \<le> consecutive_empty_pages s + 2 + 1" by simp
qed

text \<open>
  A request that raises an exception inside \<open>scrape_page\<close> is caught there, and
  \<open>scrape_page\<close> returns the empty list (as \<open>extract_table_data\<close> does for an exception
  of its own): the loop takes the transition it takes for any page \<open>f\<close> that yields no
  record, and three such pages in a row end the loop with the accumulated data unchanged.
\<close>

lemma failed_page_is_empty_page:
  assumes "site (page_num s) = FetchFailed"
  shows "site_call site (page_num s) = Inr []
       \<and> (\<forall>f. scrape_page (page_num s) f = [] \<longrightarrow>
             loop_body (site_call site) max_pages s
               = loop_body (site_call (site(page_num s := f))) max_pages s)
       \<and> loop_body (site_call site) max_pages s =
           (if 3 \<le> consecutive_empty_pages s + 1
            then Break (s\<lparr>consecutive_empty_pages := consecutive_empty_pages s + 1\<rparr>)
            else if cap_reached max_pages (page_num s)
            then Break (s\<lparr>consecutive_empty_pages := consecutive_empty_pages s + 1\<rparr>)
            else Continue (s\<lparr>consecutive_empty_pages := consecutive_empty_pages s + 1,
                             page_num := page_num s + 1\<rparr>))
       \<and> (site (page_num s + 1) = FetchFailed \<and> site (page_num s + 2) = FetchFailed \<longrightarrow>
            (\<exists>r. scrape_loop (site_call site) max_pages s = Some r
                 \<and> all_data r = all_data s \<and> page_num r \<le> page_num s + 2))"
proof (intro conjI allI impI)
  show e: "site_call site (page_num s) = Inr []"
    using assms by (simp add: site_call_def scrape_page_def)
  show "loop_body (site_call site) max_pages s =
           (if 3 \<le> consecutive_empty_pages s + 1
            then Break (s\<lparr>consecutive_empty_pages := consecutive_empty_pages s + 1\<rparr>)
            else if cap_reached max_pages (page_num s)
            then Break (s\<lparr>consecutive_empty_pages := consecutive_empty_pages s + 1\<rparr>)
            else Continue (s\<lparr>consecutive_empty_pages := consecutive_empty_pages s + 1,
                             page_num := page_num s + 1\<rparr>))"
    by (rule loop_body_no_records[of "site_call site" s max_pages, OF e])
  fix f assume "scrape_page (page_num s) f = []"
  then have e': "site_call (site(page_num s := f)) (page_num s) = Inr []"
    by (simp add: site_call_def)
  show "loop_body (site_call site) max_pages s
          = loop_body (site_call (site(page_num s := f))) max_pages s"
    unfolding loop_body_no_records[of "site_call site" s max_pages, OF e]
      loop_body_no_records[of "site_call (site(page_num s := f))" s max_pages, OF e']
    by (rule refl)
next
  assume "site (page_num s + 1) = FetchFailed \<and> site (page_num s + 2) = FetchFailed"
  with assms have "site_call site (page_num s) = Inr []" "site_call site (page_num s + 1) = Inr []"
    "site_call site (page_num s + 2) = Inr []"
    by (simp_all add: site_call_def scrape_page_def)
  then show "\<exists>r. scrape_loop (site_call site) max_pages s = Some r
                 \<and> all_data r = all_data s \<and> page_num r \<le> page_num s + 2"
    by (rule three_empty_pages_stop)
qed

lemma failed_page_is_empty_page_example:
  "dead_site (page_num initial_state) = FetchFailed
   \<and> loop_body (site_call dead_site) None initial_state =
       Continue (initial_state\<lparr>consecutive_empty_pages := 1, page_num := 2\<rparr>)
   \<and> (\<exists>r. scrape_loop (site_call dead_site) None initial_state = Some r \<and> all_data r = [] \<and> page_num r \<le> 3)"
proof -
  have h: "dead_site (page_num initial_state) = FetchFailed" by (simp add: dead_site_def)
  have h2: "dead_site (page_num initial_state + 1) = FetchFailed \<and> dead_site (page_num initial_state + 2) = FetchFailed"
    by (simp add: dead_site_def)
  from failed_page_is_empty_page[of dead_site initial_state None, OF h] h2 h show ?thesis
    by (simp add: initial_state_def cap_reached_def numeral_3_eq_3)
qed

text \<open>
  The handler of the loop: one raising call makes the counter go up by one and the loop
  either stop or go on to the next page, and raising calls in a row end the loop once the
  counter reaches 3, with the accumulated data unchanged.
\<close>

lemma handler_step:
  assumes "call (page_num s) = Inl e"
  shows "(\<exists>r. loop_body call mp s = Break r \<and> all_data r = all_data s \<and> page_num r = page_num s
              \<and> consecutive_empty_pages r = consecutive_empty_pages s + 1)
       \<or> (consecutive_empty_pages s + 1 < 3
          \<and> (\<exists>s'. loop_body call mp s = Continue s' \<and> all_data s' = all_data s
                 \<and> page_num s' = page_num s + 1
                 \<and> consecutive_empty_pages s' = consecutive_empty_pages s + 1))"
  unfolding loop_handler[of call s e mp, OF assms] by auto

lemma raising_calls_stop:
  assumes "\<forall>i \<le> n. isl (call (page_num s + i))" "3 \<le> consecutive_empty_pages s + n + 1"
  shows "\<exists>r. scrape_loop call mp s = Some r \<and> all_data r = all_data s \<and> page_num r \<le> page_num s + n"
  using assms
proof (induction n arbitrary: s)
  case 0
  then obtain e where "call (page_num s) = Inl e" by (cases "call (page_num s)") auto
  from handler_step[of call s e mp, OF this] 0(2)
  obtain r where "loop_body call mp s = Break r" "all_data r = all_data s" "page_num r = page_num s"
    by auto
  then show ?case by (subst scrape_loop.simps) simp
next
  case (Suc n)
  from Suc.prems(1) have "isl (call (page_num s))" by (metis add.right_neutral le0)
  then obtain e where e: "call (page_num s) = Inl e" by (cases "call (page_num s)") auto
  from handler_step[of call s e mp, OF e] show ?case
  proof (elim disjE exE conjE)
    fix r assume "loop_body call mp s = Break r" "all_data r = all_data s" "page_num r = page_num s"
    then show ?thesis by (subst scrape_loop.simps) simp
  next
    fix s' assume s': "loop_body call mp s = Continue s'" "all_data s' = all_data s"
      "page_num s' = page_num s + 1" "consecutive_empty_pages s' = consecutive_empty_pages s + 1"
    have "\<forall>i \<le> n. isl (call (page_num s' + i))"
    proof (intro allI impI)
      fix i assume "i \<le> n"
      then have "isl (call (page_num s + Suc i))" using Suc.prems(1) by (meson Suc_le_mono)
      then show "isl (call (page_num s' + i))" using s'(3) by simp
    qed
    moreover have "3 \<le> consecutive_empty_pages s' + n + 1" using Suc.prems(2) s'(4) by simp
    ultimately obtain r where "scrape_loop call mp s' = Some r" "all_data r = all_data s'"
      "page_num r \<le> page_num s' + n"
      using Suc.IH[of s'] by blast
    with s' show ?thesis by (subst scrape_loop.simps) simp
  qed
qed


section \<open>Properties of the extractor\<close>

lemma count_filled_populated:
  "list_all (text_or_absent row) fs \<Longrightarrow>
     count_filled row fs n = Inr (n + length (filter (populated row) fs))"
proof (induction fs arbitrary: n)
  case Nil
  show ?case by simp
next
  case (Cons f fs)
  then have t: "text_or_absent row f" and r: "list_all (text_or_absent row) fs" by simp_all
  show ?case
  proof (cases "dict_get row f")
    case None
    then show ?thesis using Cons.IH[OF r] by (simp add: get_stripped_def populated_def strip_def)
  next
    case (Some v)
    with t obtain s where "v = PStr s" by (cases v) (simp_all add: text_or_absent_def)
    with Some show ?thesis using Cons.IH[OF r] by (simp add: get_stripped_def populated_def)
  qed
qed

lemma get_stripped_text: "text_or_absent row k \<Longrightarrow> \<exists>s. get_stripped row k = Inr s"
  by (auto simp: text_or_absent_def get_stripped_def split: option.splits pyval.splits)

lemma is_grouping_row_populated:
  assumes "list_all (text_or_absent row) (''Column_1'' # required_fields)"
  shows "is_grouping_row row = Inr (populated_count row < 2)"
proof -
  from assms have r: "list_all (text_or_absent row) required_fields"
    and c1: "text_or_absent row ''Column_1''" by simp_all
  obtain s where s: "get_stripped row ''Column_1'' = Inr s" using get_stripped_text[OF c1] by blast
  show ?thesis
    by (simp add: is_grouping_row_def count_filled_populated[OF r] populated_count_def s)
qed

text \<open>
  C4. A raw record (its key columns and \<open>Column_1\<close> hold strings when present) is
  classified as a grouping row iff fewer than two of \<open>Column_2\<close>, \<open>Column_3\<close>,
  \<open>Column_4\<close>, \<open>Column_10\<close> are populated, and \<open>map_column_headers\<close> drops exactly these
  rows before mapping.
\<close>

theorem grouping_row_iff_under_two_populated:
  assumes "list_all (text_or_absent row) (''Column_1'' # required_fields)"
  shows "is_grouping_row row = Inr (populated_count row < 2)
       \<and> map_rows (row # rows) mapped_data =
           (if populated_count row < 2 then map_rows rows mapped_data
            else map_rows rows (mapped_data @ [map_row row]))"
  using is_grouping_row_populated[OF assms] by simp

theorem grouping_row_iff_under_two_populated_witness:
  "list_all (text_or_absent grouping_example) (''Column_1'' # required_fields)
   \<and> populated_count grouping_example = 1
   \<and> is_grouping_row grouping_example = Inr True
   \<and> list_all (text_or_absent product_example) (''Column_1'' # required_fields)
   \<and> populated_count product_example = 2
   \<and> is_grouping_row product_example = Inr False
   \<and> list_all (text_or_absent blank_name_example) (''Column_1'' # required_fields)
   \<and> populated_count blank_name_example = 1
   \<and> is_grouping_row blank_name_example = Inr True
   \<and> map_rows [grouping_example, product_example] [] = Inr [map_row product_example]"
proof -
  have b: "list_all (text_or_absent blank_name_example) (''Column_1'' # required_fields)"
    by code_simp
  have cb: "populated_count blank_name_example = 1" by code_simp
  have g: "list_all (text_or_absent grouping_example) (''Column_1'' # required_fields)"
    by code_simp
  have p: "list_all (text_or_absent product_example) (''Column_1'' # required_fields)"
    by code_simp
  have cg: "populated_count grouping_example = 1" by code_simp
  have cp: "populated_count product_example = 2" by code_simp
  from grouping_row_iff_under_two_populated[OF g, of "[product_example]" "[]"]
    grouping_row_iff_under_two_populated[OF p, of "[]" "[]"]
    grouping_row_iff_under_two_populated[OF b, of "[]" "[]"] g p b cg cp cb
  show ?thesis by simp
qed

lemma map_rows_filter:
  "\<forall>row \<in> set rows. list_all (text_or_absent row) (''Column_1'' # required_fields) \<Longrightarrow>
     map_rows rows acc = Inr (acc @ map map_row (filter (\<lambda>row. \<not> populated_count row < 2) rows))"
proof (induction rows arbitrary: acc)
  case Nil
  show ?case by simp
next
  case (Cons row rows)
  then have "list_all (text_or_absent row) (''Column_1'' # required_fields)" by simp
  from is_grouping_row_populated[OF this] Cons show ?case by simp
qed

lemma set_dict_set: "set (dict_set d k v) \<subseteq> insert (k, v) (set d)"
  by (induction d) (auto split: if_splits)

lemma keys_dict_set: "set (keys (dict_set d k v)) = insert k (set (keys d))"
  unfolding keys_def by (induction d k v rule: dict_set.induct) (simp_all add: insert_commute)

lemma raw_typed_dict_set:
  "raw_typed d \<Longrightarrow> (case v of PStr s \<Rightarrow> True | _ \<Rightarrow> False) \<or> endswith k ''_links''
     \<Longrightarrow> raw_typed (dict_set d k v)"
  using set_dict_set[of d k v] by (auto simp: raw_typed_def list_all_iff)

lemma endswith_append: "endswith (h @ s) s"
  by (simp add: endswith_def)

lemma fill_row_typed: "raw_typed d \<Longrightarrow> raw_typed (fill_row headers cells i d)"
proof (induction cells arbitrary: i d)
  case Nil
  then show ?case by simp
next
  case (Cons c cells)
  show ?case
    by (simp add: Let_def) (intro conjI impI Cons.IH raw_typed_dict_set Cons.prems, simp_all add: endswith_append)
qed

lemma extract_rows_typed: "\<forall>r \<in> set (extract_rows pn url headers rows idx). raw_typed r"
proof (induction rows arbitrary: idx)
  case Nil
  show ?case by simp
next
  case (Cons cells rows)
  have "raw_typed (new_row pn idx url)" by (simp add: raw_typed_def new_row_def)
  then show ?case using Cons fill_row_typed by simp
qed

lemma raw_typed_text:
  assumes "raw_typed d" "\<not> endswith k ''_links''" "k \<noteq> ''page_number''" "k \<noteq> ''row_index''"
  shows "text_or_absent d k"
proof (cases "dict_get d k")
  case None
  then show ?thesis by (simp add: text_or_absent_def)
next
  case (Some v)
  then have "(k, v) \<in> set d" by (simp add: dict_get_def map_of_SomeD)
  with assms have "case v of PStr s \<Rightarrow> True | _ \<Rightarrow> False"
    by (auto simp: raw_typed_def list_all_iff)
  with Some show ?thesis by (simp add: text_or_absent_def split: pyval.splits)
qed

lemma raw_typed_key_columns:
  assumes "raw_typed d"
  shows "list_all (text_or_absent d) (''Column_1'' # required_fields)"
  by (simp add: required_fields_def) (intro conjI raw_typed_text[OF assms]; simp add: endswith_def)
lemma extract_headers_names:
  "extract_headers cells headers =
     headers @ map (\<lambda>(i, c). if cell_text c \<noteq> [] then cell_text c else column_name (i + 1))
                   (enumerate (length headers) cells)"
  by (induction cells arbitrary: headers) simp_all

lemma extract_headers_header_names: "extract_headers header_row [] = header_names header_row"
  by (simp add: extract_headers_names header_names_def)

lemma fill_row_keys:
  "set (keys (fill_row headers cells i d)) = set (keys d) \<union> set (cell_keys headers i cells)"
proof (induction cells arbitrary: i d)
  case Nil
  show ?case by (simp add: cell_keys_def)
next
  case (Cons c cells)
  have ck: "set (cell_keys headers i (c # cells)) =
      insert (header_at headers i)
        ((if cell_links c \<noteq> [] then {header_at headers i @ ''_links''} else {})
          \<union> set (cell_keys headers (Suc i) cells))"
    by (auto simp: cell_keys_def)
  show ?case
    unfolding ck by (auto simp: Let_def Cons.IH keys_dict_set header_at_def)
qed

lemma extract_rows_keys:
  "map (\<lambda>r. set (keys r)) (extract_rows pn url headers rows idx) =
     map (\<lambda>cells. set (raw_keys headers cells)) (filter (\<lambda>cells. cells \<noteq> []) rows)"
proof (induction rows arbitrary: idx)
  case Nil
  show ?case by simp
next
  case (Cons cells rows)
  have "set (keys (new_row pn idx url)) = {''page_number'', ''row_index'', ''source_url''}"
    by (simp add: new_row_def keys_def)
  then show ?case using Cons by (auto simp: fill_row_keys raw_keys_def)
qed

lemma select_single_table: "select_main_table [header_row # data_rows] = Some (header_row # data_rows)"
  by (cases data_rows) (simp_all add: select_main_table_def Let_def)

lemma map_row_keys_fold:
  "set (keys (foldl (\<lambda>mapped_row (old_key, new_key).
              case dict_get row old_key of
                None \<Rightarrow> mapped_row
              | Some v \<Rightarrow> dict_set mapped_row new_key (clean_value v)) acc cm))
     \<subseteq> set (keys acc) \<union> snd ` set cm"
proof (induction cm arbitrary: acc)
  case Nil
  show ?case by simp
next
  case (Cons p cm)
  obtain a b where p: "p = (a, b)" by (cases p)
  show ?case using Cons[of "case dict_get row a of None \<Rightarrow> acc | Some v \<Rightarrow> dict_set acc b (clean_value v)"]
    by (auto simp: p keys_dict_set split: option.splits)
qed

lemma map_row_keys: "set (keys (map_row row)) \<subseteq> snd ` set column_mapping"
  using map_row_keys_fold[of row "[]" column_mapping] by (simp add: map_row_def keys_def)

text \<open>
  C3, as stated, fails: for the example table of the specification the extractor returns
  no record, because its rows have no \<open>Column_N\<close> key and count as grouping rows.
\<close>

theorem extract_table_data_spec_example:
  "extract_table_data 1 ''https://members.annuityratewatch.com/'' [spec_example_table] = []"
  by code_simp

text \<open>
  C3, amended. For a page whose only table has the header row \<open>header_row\<close> and the data
  rows \<open>data_rows\<close>: the header names are the header cell texts, \<open>Column_N\<close> for a blank
  cell; there is one raw record for each data row that has a cell, with the keys
  \<open>page_number\<close>, \<open>row_index\<close>, \<open>source_url\<close>, the header name of each of its cells
  (\<open>Column_N\<close> beyond the header row) and that name followed by \<open>_links\<close> for a cell with
  links; the extractor returns the raw records with at least two populated key columns,
  each mapped by \<open>map_row\<close>: at most one record per data row, with keys among the names of
  the column mapping.
\<close>

theorem extract_table_data_single_table:
  "extract_headers header_row [] = header_names header_row
   \<and> map (\<lambda>r. set (keys r)) (extract_rows pn url (header_names header_row) data_rows 0)
       = map (\<lambda>cells. set (raw_keys (header_names header_row) cells))
             (filter (\<lambda>cells. cells \<noteq> []) data_rows)
   \<and> extract_table_data pn url [header_row # data_rows]
       = map map_row (filter (\<lambda>r. \<not> populated_count r < 2)
                       (extract_rows pn url (header_names header_row) data_rows 0))
   \<and> length (extract_table_data pn url [header_row # data_rows]) \<le> length data_rows
   \<and> (\<forall>r \<in> set (extract_table_data pn url [header_row # data_rows]).
         set (keys r) \<subseteq> snd ` set column_mapping)"
proof -
  let ?raw = "extract_rows pn url (header_names header_row) data_rows 0"
  have typed: "\<forall>row \<in> set ?raw. list_all (text_or_absent row) (''Column_1'' # required_fields)"
    using extract_rows_typed raw_typed_key_columns by blast
  have e: "extract_table_data pn url [header_row # data_rows]
       = map map_row (filter (\<lambda>r. \<not> populated_count r < 2) ?raw)"
    by (simp add: extract_table_data_def select_single_table extract_headers_header_names
        map_column_headers_def map_rows_filter[OF typed])
  have "length ?raw = length (filter (\<lambda>cells. cells \<noteq> []) data_rows)"
    using extract_rows_keys[of pn url "header_names header_row" data_rows 0]
    by (metis length_map)
  then have l: "length (extract_table_data pn url [header_row # data_rows]) \<le> length data_rows"
    unfolding e by (metis (no_types, lifting) length_filter_le length_map le_trans)
  show ?thesis
    using e l extract_rows_keys map_row_keys
    by (simp add: extract_headers_header_names)
qed

theorem extract_table_data_single_table_witness:
  "header_names (hd blank_header_table) = [''Column_1'', ''Column_2'', ''Column_3'', ''Column_4'']
   \<and> length (tl blank_header_table) = 3
   \<and> extract_table_data 1 ''u'' [blank_header_table] =
       [[(''Company_Product_Name'', PStr ''Acme 5''), (''AM_Best'', PStr ''A-''),
         (''Max_Issue_Age'', PStr ''85'')]]"
proof -
  have t: "blank_header_table = hd blank_header_table # tl blank_header_table"
    by (simp add: blank_header_table_def)
  have h: "header_names (hd blank_header_table) = [''Column_1'', ''Column_2'', ''Column_3'', ''Column_4'']"
    by code_simp
  have l: "length (tl blank_header_table) = 3" by (simp add: blank_header_table_def)
  have e: "map map_row (filter (\<lambda>r. \<not> populated_count r < 2)
             (extract_rows 1 ''u'' (header_names (hd blank_header_table)) (tl blank_header_table) 0))
           = [[(''Company_Product_Name'', PStr ''Acme 5''), (''AM_Best'', PStr ''A-''),
               (''Max_Issue_Age'', PStr ''85'')]]"
    by code_simp
  from extract_table_data_single_table[of "hd blank_header_table" 1 "''u''" "tl blank_header_table"]
  have "extract_table_data 1 ''u'' [hd blank_header_table # tl blank_header_table] =
       [[(''Company_Product_Name'', PStr ''Acme 5''), (''AM_Best'', PStr ''A-''),
         (''Max_Issue_Age'', PStr ''85'')]]"
    using e by simp
  with t h l show ?thesis by simp
qed

section \<open>Properties of the CSV sink\<close>

lemma order_columns_filter:
  "distinct ps \<Longrightarrow>
     order_columns ps columns all_columns =
       (columns @ filter (\<lambda>c. c \<in> all_columns) ps, all_columns - set ps)"
proof (induction ps arbitrary: columns all_columns)
  case Nil
  show ?case by simp
next
  case (Cons col ps)
  then have d: "distinct ps" and n: "col \<notin> set ps" by simp_all
  have f: "filter (\<lambda>c. c \<in> all_columns - {col}) ps = filter (\<lambda>c. c \<in> all_columns) ps"
    by (rule filter_cong) (use n in auto)
  have g: "all_columns - {col} - set ps = all_columns - set (col # ps)" by auto
  show ?case
  proof (cases "col \<in> all_columns")
    case True
    then show ?thesis using Cons.IH[OF d, of "columns @ [col]" "all_columns - {col}"] f g by simp
  next
    case False
    then show ?thesis using Cons.IH[OF d, of columns all_columns] by simp
  qed
qed

lemma distinct_preferred_order: "distinct preferred_order"
  by (simp add: preferred_order_def)

text \<open>
  C9. For a non-empty record list the header written by \<open>save_to_csv\<close> is: the columns
  of the preferred list that occur in the data, in the order of the preferred list, then
  the other columns of the data in ascending order of their names.
\<close>

theorem csv_column_order:
  assumes "data \<noteq> []"
  shows "save_to_csv data =
     Some (filter (\<lambda>c. c \<in> set (concat (map keys data))) preferred_order
           @ sorted_list_of_set (set (concat (map keys data)) - set preferred_order))"
  using assms
  by (simp add: save_to_csv_def csv_columns_def order_columns_filter[OF distinct_preferred_order])

theorem csv_column_order_witness:
  "csv_example \<noteq> []
   \<and> save_to_csv csv_example =
       Some [''AM_Best'', ''Current_Rate'', ''Commission'', ''Company_Product_Name'', ''Years'']"
proof -
  have n: "csv_example \<noteq> []" by (simp add: csv_example_def)
  have e1: "filter (\<lambda>c. c \<in> set (concat (map keys csv_example))) preferred_order
              = [''AM_Best'', ''Current_Rate'', ''Commission'']"
    by code_simp
  have e2: "sorted_list_of_set (set (concat (map keys csv_example)) - set preferred_order)
              = [''Company_Product_Name'', ''Years'']"
    by code_simp
  from csv_column_order[OF n] e1 e2 n show ?thesis by simp
qed

section \<open>Properties of the database sinks\<close>

lemma int_not_dec: "int_regex s \<Longrightarrow> \<not> dec_regex s"
proof -
  assume "int_regex s"
  then have "\<forall>c \<in> set s. is_digit c" by (simp add: int_regex_def list_all_iff)
  then have d: "dropWhile is_digit s = []" by (metis dropWhile_eq_Nil_conv)
  show ?thesis unfolding dec_regex_def d by simp
qed

lemma NUMERIC_not_INT: "NUMERIC_DECIMAL_TYPE \<noteq> ''INT''"
  by (simp add: NUMERIC_DECIMAL_TYPE_def)

lemma candidate_cases:
  "candidate v = (if digits_only v then Some ''INT''
                  else if decimal_number v then Some NUMERIC_DECIMAL_TYPE else None)"
  by (cases v) (simp_all add: numeric_text_def Let_def)

lemma digits_not_decimal: "digits_only v \<Longrightarrow> \<not> decimal_number v"
  by (cases v) (simp_all add: int_not_dec)

text \<open>The type that the loop ends with, for any type it starts with.\<close>

lemma infer_column_general:
  "infer_column data col inferred =
     (if \<not> list_all (\<lambda>v. digits_only v \<or> decimal_number v) (column_values data col) then None
      else if column_values data col = [] then inferred
      else if inferred = None then
        (if list_ex decimal_number (column_values data col) then Some NUMERIC_DECIMAL_TYPE else Some ''INT'')
      else if inferred = Some ''INT'' \<and> list_ex decimal_number (column_values data col)
        then Some NUMERIC_DECIMAL_TYPE
      else inferred)"
proof (induction data arbitrary: inferred)
  case Nil
  show ?case by (simp add: column_values_def)
next
  case (Cons row data)
  show ?case
  proof (cases "is_placeholder (row_get row col)")
    case True
    then have "column_values (row # data) col = column_values data col" by (simp add: column_values_def)
    with True Cons show ?thesis by simp
  next
    case False
    then have cv: "column_values (row # data) col = row_get row col # column_values data col"
      by (simp add: column_values_def)
    show ?thesis
      using False digits_not_decimal[of "row_get row col"]
      by (auto simp: cv Cons candidate_cases Let_def NUMERIC_not_INT)
  qed
qed

lemma infer_column_values:
  "infer_column data col None =
     (if column_values data col = []
         \<or> \<not> list_all (\<lambda>v. digits_only v \<or> decimal_number v) (column_values data col) then None
      else if list_ex decimal_number (column_values data col) then Some NUMERIC_DECIMAL_TYPE
      else Some ''INT'')"
  by (simp add: infer_column_general)

lemma infer_column_nonempty: "infer_column data col None = Some t \<Longrightarrow> t \<noteq> []"
  by (auto simp: infer_column_values NUMERIC_DECIMAL_TYPE_def split: if_splits)

lemma dict_get_Nil: "dict_get [] c = None"
  by (simp add: dict_get_def)

lemma dict_get_dict_set:
  "dict_get (dict_set d k v) k' = (if k' = k then Some v else dict_get d k')"
proof (induction d)
  case Nil
  show ?case by (simp add: dict_get_def)
next
  case (Cons p d)
  then show ?case by (cases p) (auto simp: dict_get_def)
qed

lemma dict_get_infer_fold:
  "dict_get (foldl (\<lambda>types col.
              case infer_column data col None of
                None \<Rightarrow> types
              | Some t \<Rightarrow> if t \<noteq> [] then dict_set types col t else types) acc columns) c =
     (if c \<in> set columns \<and> infer_column data c None \<noteq> None then infer_column data c None
      else dict_get acc c)"
proof (induction columns arbitrary: acc)
  case Nil
  show ?case by simp
next
  case (Cons col columns)
  show ?case
    by (cases "infer_column data col None")
       (auto simp: Cons dict_get_dict_set dest: infer_column_nonempty)
qed

lemma dict_get_infer_column_types:
  "dict_get (infer_column_types data columns) c =
     (if c \<in> set columns then infer_column data c None else None)"
  by (simp add: infer_column_types_def dict_get_infer_fold dict_get_Nil)

lemma dict_get_dict_update_other:
  "c \<notin> fst ` set e \<Longrightarrow> dict_get (dict_update d e) c = dict_get d c"
  unfolding dict_update_def
  by (induction e arbitrary: d) (auto simp: dict_get_dict_set)

lemma dict_get_dict_update:
  "wf_dict e \<Longrightarrow> dict_get e c = Some t \<Longrightarrow> dict_get (dict_update d e) c = Some t"
proof (induction e arbitrary: d)
  case Nil
  then show ?case by (simp add: dict_get_def)
next
  case (Cons p e)
  obtain k v where p: "p = (k, v)" by (cases p)
  show ?case
  proof (cases "k = c")
    case True
    then have "c \<notin> fst ` set e" using Cons.prems(1) p by (auto simp: wf_dict_def)
    then have "dict_get (dict_update (dict_set d k v) e) c = dict_get (dict_set d k v) c"
      by (rule dict_get_dict_update_other)
    moreover have "v = t" using True Cons.prems(2) p by (simp add: dict_get_def)
    ultimately have "dict_get (dict_update (dict_set d k v) e) c = Some t"
      using True by (simp add: dict_get_dict_set)
    then show ?thesis by (simp add: dict_update_def p)
  next
    case False
    then have "dict_get e c = Some t" using Cons.prems(2) p by (simp add: dict_get_def)
    moreover have "wf_dict e" using Cons.prems(1) by (simp add: wf_dict_def)
    ultimately have "dict_get (dict_update (dict_set d k v) e) c = Some t" by (rule Cons.IH[rotated])
    then show ?thesis by (simp add: dict_update_def p)
  qed
qed

lemma dict_get_default_fold:
  "dict_get (foldl (\<lambda>inferred (col, typ).
                  if col \<in> set columns \<and> dict_get inferred col = None
                  then dict_set inferred col typ else inferred) start dn) c =
     (case dict_get start c of
        Some t \<Rightarrow> Some t
      | None \<Rightarrow> if c \<in> set columns then dict_get dn c else None)"
proof (induction dn arbitrary: start)
  case Nil
  show ?case by (simp add: dict_get_def split: option.splits)
next
  case (Cons p dn)
  obtain k v where p: "p = (k, v)" by (cases p)
  show ?case
    by (auto simp: p Cons dict_get_dict_set split: option.splits) (simp_all add: dict_get_def)
qed

lemma column_type_resolved:
  "column_type (resolve_types data columns ovs) c =
     (case dict_get (case ovs of None \<Rightarrow> infer_column_types data columns
                      | Some ov \<Rightarrow> if ov \<noteq> [] then dict_update (infer_column_types data columns) ov
                                   else infer_column_types data columns) c of
        Some t \<Rightarrow> t
      | None \<Rightarrow> (case (if c \<in> set columns then dict_get default_numeric c else None) of
                   Some t \<Rightarrow> t | None \<Rightarrow> DEFAULT_COLUMN_TYPE))"
  by (simp add: column_type_def resolve_types_def dict_get_default_fold Let_def split: option.splits)

text \<open>
  C8, as stated, fails: a column that holds only placeholders gets no inferred type and
  is stored as text, although none of its values fails to be digits-only; a column
  \<open>Current_Rate\<close> with non-numeric values is not stored as text but gets the default
  numeric type; and a text of digits with blanks around it counts as an integer.
\<close>

theorem type_inference_odd_columns:
  "column_values db_odd_example ''Notes'' = []
   \<and> infer_column db_odd_example ''Notes'' None = None
   \<and> column_type (resolve_types db_odd_example (derive_columns db_odd_example None) None) ''Notes''
       = ''NVARCHAR(MAX)''
   \<and> column_values db_odd_example ''Current_Rate'' = [PStr ''4.25%'', PStr ''5.00%'']
   \<and> infer_column db_odd_example ''Current_Rate'' None = None
   \<and> column_type (resolve_types db_odd_example (derive_columns db_odd_example None) None) ''Current_Rate''
       = ''DECIMAL(20,6)''
   \<and> py_replace '','' [] (CHR 0xA0 # ''5,000 '') = CHR 0xA0 # ''5000 ''
   \<and> infer_column db_odd_example ''Min_Premium'' None = Some ''INT''"
  by code_simp

text \<open>
  C8, amended. Type inference yields the integer type iff the column has a value outside
  the skip set and every such value is digits-only (after removing commas and stripping);
  the decimal type iff all such values are numeric and at least one is decimal; otherwise
  it yields no type. An override of the caller for the column is its resolved type. Without
  an override a column of the table gets its inferred type, else its default numeric type
  if it is one of the five known numeric columns, else the text type.
\<close>

theorem type_inference_resolved:
  "infer_column data col None =
     (if column_values data col = []
         \<or> \<not> list_all (\<lambda>v. digits_only v \<or> decimal_number v) (column_values data col) then None
      else if list_ex decimal_number (column_values data col) then Some NUMERIC_DECIMAL_TYPE
      else Some ''INT'')
   \<and> (\<forall>ov t. wf_dict ov \<and> dict_get ov col = Some t \<longrightarrow>
         column_type (resolve_types data columns (Some ov)) col = t)
   \<and> (\<forall>ovs. col \<in> set columns \<and> (ovs = None \<or> (\<exists>ov. ovs = Some ov \<and> dict_get ov col = None)) \<longrightarrow>
         column_type (resolve_types data columns ovs) col =
           (case infer_column data col None of
              Some t \<Rightarrow> t
            | None \<Rightarrow> (case dict_get default_numeric col of
                         Some t \<Rightarrow> t
                       | None \<Rightarrow> DEFAULT_COLUMN_TYPE)))"
proof (intro conjI allI impI)
  show "infer_column data col None =
     (if column_values data col = []
         \<or> \<not> list_all (\<lambda>v. digits_only v \<or> decimal_number v) (column_values data col) then None
      else if list_ex decimal_number (column_values data col) then Some NUMERIC_DECIMAL_TYPE
      else Some ''INT'')"
    by (rule infer_column_values)
next
  fix ov :: "(string \<times> string) list" and t
  assume a: "wf_dict ov \<and> dict_get ov col = Some t"
  then have "ov \<noteq> []" by (auto simp: dict_get_def)
  moreover have "dict_get (dict_update (infer_column_types data columns) ov) col = Some t"
    by (rule dict_get_dict_update) (use a in simp_all)
  ultimately show "column_type (resolve_types data columns (Some ov)) col = t"
    by (simp add: column_type_resolved)
next
  fix ovs :: "(string \<times> string) list option"
  assume a: "col \<in> set columns \<and> (ovs = None \<or> (\<exists>ov. ovs = Some ov \<and> dict_get ov col = None))"
  have "dict_get (case ovs of None \<Rightarrow> infer_column_types data columns
                      | Some ov \<Rightarrow> if ov \<noteq> [] then dict_update (infer_column_types data columns) ov
                                   else infer_column_types data columns) col
        = infer_column data col None"
  proof (cases ovs)
    case None
    with a show ?thesis by (simp add: dict_get_infer_column_types)
  next
    case (Some ov)
    with a have "dict_get ov col = None" by auto
    then have "col \<notin> fst ` set ov" by (simp add: dict_get_def map_of_eq_None_iff)
    from dict_get_dict_update_other[OF this] Some a show ?thesis
      by (simp add: dict_get_infer_column_types)
  qed
  with a show "column_type (resolve_types data columns ovs) col =
           (case infer_column data col None of
              Some t \<Rightarrow> t
            | None \<Rightarrow> (case dict_get default_numeric col of
                         Some t \<Rightarrow> t
                       | None \<Rightarrow> DEFAULT_COLUMN_TYPE))"
    by (simp add: column_type_resolved split: option.splits)
qed

theorem type_inference_resolved_witness:
  "infer_column db_example ''Min_Premium'' None = Some ''INT''
   \<and> infer_column db_example ''Current_Rate'' None = Some ''DECIMAL(20,6)''
   \<and> infer_column db_example ''AM_Best'' None = None
   \<and> column_type (resolve_types db_example (derive_columns db_example None) None) ''AM_Best''
       = ''NVARCHAR(MAX)''
   \<and> column_type (resolve_types db_example (derive_columns db_example None)
         (Some [(''Min_Premium'', ''BIGINT'')])) ''Min_Premium'' = ''BIGINT''
   \<and> column_values db_odd_example ''Min_Premium'' = [PStr (CHR 0xA0 # ''5,000 '')]
   \<and> infer_column db_odd_example ''Min_Premium'' None = Some ''INT''"
proof -
  have v4: "(if column_values db_odd_example ''Min_Premium'' = []
         \<or> \<not> list_all (\<lambda>v. digits_only v \<or> decimal_number v) (column_values db_odd_example ''Min_Premium'') then None
      else if list_ex decimal_number (column_values db_odd_example ''Min_Premium'') then Some NUMERIC_DECIMAL_TYPE
      else Some ''INT'') = Some ''INT''"
    by code_simp
  have cv4: "column_values db_odd_example ''Min_Premium'' = [PStr (CHR 0xA0 # ''5,000 '')]"
    by code_simp
  have i4: "infer_column db_odd_example ''Min_Premium'' None = Some ''INT''"
    by (rule trans[OF conjunct1[OF type_inference_resolved[of db_odd_example "''Min_Premium''" "[]"]] v4])
  have v1: "(if column_values db_example ''Min_Premium'' = []
         \<or> \<not> list_all (\<lambda>v. digits_only v \<or> decimal_number v) (column_values db_example ''Min_Premium'') then None
      else if list_ex decimal_number (column_values db_example ''Min_Premium'') then Some NUMERIC_DECIMAL_TYPE
      else Some ''INT'') = Some ''INT''"
    by code_simp
  have v2: "(if column_values db_example ''Current_Rate'' = []
         \<or> \<not> list_all (\<lambda>v. digits_only v \<or> decimal_number v) (column_values db_example ''Current_Rate'') then None
      else if list_ex decimal_number (column_values db_example ''Current_Rate'') then Some NUMERIC_DECIMAL_TYPE
      else Some ''INT'') = Some ''DECIMAL(20,6)''"
    by code_simp
  have v3: "(if column_values db_example ''AM_Best'' = []
         \<or> \<not> list_all (\<lambda>v. digits_only v \<or> decimal_number v) (column_values db_example ''AM_Best'') then None
      else if list_ex decimal_number (column_values db_example ''AM_Best'') then Some NUMERIC_DECIMAL_TYPE
      else Some ''INT'') = None"
    by code_simp
  have c: "''AM_Best'' \<in> set (derive_columns db_example None)" by code_simp
  have n: "dict_get default_numeric ''AM_Best'' = None" by code_simp
  have w: "wf_dict [(''Min_Premium'', ''BIGINT'')]"
    "dict_get [(''Min_Premium'', ''BIGINT'')] ''Min_Premium'' = Some ''BIGINT''"
    by code_simp+
  note t1 = type_inference_resolved[of db_example "''Min_Premium''" "derive_columns db_example None"]
  note t2 = type_inference_resolved[of db_example "''Current_Rate''" "derive_columns db_example None"]
  note t3 = type_inference_resolved[of db_example "''AM_Best''" "derive_columns db_example None"]
  have i1: "infer_column db_example ''Min_Premium'' None = Some ''INT''"
    by (rule trans[OF conjunct1[OF t1] v1])
  have i2: "infer_column db_example ''Current_Rate'' None = Some ''DECIMAL(20,6)''"
    by (rule trans[OF conjunct1[OF t2] v2])
  have i3: "infer_column db_example ''AM_Best'' None = None"
    by (rule trans[OF conjunct1[OF t3] v3])
  have r3: "column_type (resolve_types db_example (derive_columns db_example None) None) ''AM_Best''
       = ''NVARCHAR(MAX)''"
    using t3 c n i3 by (simp add: DEFAULT_COLUMN_TYPE_def)
  have r1: "column_type (resolve_types db_example (derive_columns db_example None)
         (Some [(''Min_Premium'', ''BIGINT'')])) ''Min_Premium'' = ''BIGINT''"
    using t1 w by blast
  from i1 i2 i3 r3 r1 cv4 i4 show ?thesis by simp
qed

text \<open>
  C10, as stated, fails in its last part: for a text column the MySQL converter does not
  return the placeholder \<open>"-"\<close> unchanged, it returns \<open>None\<close>.
\<close>

theorem mysql_converter_placeholder:
  "convert_value_for_db never_parses never_parses (PStr ''-'') ''TEXT'' = PNone"
  by code_simp

text \<open>
  C10, amended. For a column type that is neither \<open>INT\<close> nor starts with \<open>DECIMAL\<close>
  (the default type \<open>NVARCHAR(MAX)\<close> is one), \<open>_convert\<close> of the SQL Server sink returns
  \<open>None\<close> for every value, so every cell of such a column is inserted as NULL; the
  converter of the MySQL sink returns the value unchanged, except that it returns \<open>None\<close>
  for the placeholders.
\<close>

theorem text_columns_become_null:
  assumes "col_type \<noteq> ''INT''" "\<not> startswith col_type ''DECIMAL''"
  shows "convert py_int py_float v col_type = PNone
       \<and> (\<forall>col_defs rows.
             save_annuity_data_to_mssql py_int py_float data explicit_columns overrides
               = Some (col_defs, rows) \<longrightarrow>
             (\<forall>i < length col_defs. snd (col_defs ! i) = col_type \<longrightarrow>
                (\<forall>r \<in> set rows. r ! i = PNone)))
       \<and> convert_value_for_db py_int py_float v col_type = (if is_placeholder v then PNone else v)"
  using assms
  by (auto simp: convert_def convert_value_for_db_def insert_rows_def
        save_annuity_data_to_mssql_def Let_def split: if_splits)

theorem text_columns_become_null_witness:
  "DEFAULT_COLUMN_TYPE \<noteq> ''INT'' \<and> \<not> startswith DEFAULT_COLUMN_TYPE ''DECIMAL''
   \<and> save_annuity_data_to_mssql never_parses never_parses db_example (Some [''AM_Best'', ''Years'']) None
       = Some ([(''AM_Best'', DEFAULT_COLUMN_TYPE), (''Years'', DEFAULT_COLUMN_TYPE)],
               [[PNone, PNone], [PNone, PNone]])
   \<and> convert never_parses never_parses (PStr ''A-'') DEFAULT_COLUMN_TYPE = PNone
   \<and> convert_value_for_db never_parses never_parses (PStr ''A-'') DEFAULT_COLUMN_TYPE = PStr ''A-''"
proof -
  have a: "DEFAULT_COLUMN_TYPE \<noteq> ''INT''" and b: "\<not> startswith DEFAULT_COLUMN_TYPE ''DECIMAL''"
    by code_simp+
  have r: "save_annuity_data_to_mssql never_parses never_parses db_example (Some [''AM_Best'', ''Years'']) None
       = Some ([(''AM_Best'', DEFAULT_COLUMN_TYPE), (''Years'', DEFAULT_COLUMN_TYPE)],
               [[PNone, PNone], [PNone, PNone]])" by code_simp
  have p: "\<not> is_placeholder (PStr ''A-'')" by code_simp
  from text_columns_become_null[OF a b, of never_parses never_parses "PStr ''A-''"] a b r p
  show ?thesis by simp
qed

end
